theory Spec2Isabelle
  imports Main "HOL-Library.Word"
begin

unbundle bit_operations_syntax

section \<open>Common.h: constants and size classes\<close>

text \<open>
  \<^verbatim>\<open>size_t\<close> is the 64-bit unsigned machine integer: \<open>+\<close>, \<open>-\<close> and \<open>*\<close> wrap around.
  The functions of \<^verbatim>\<open>SizeClass\<close> and \<^verbatim>\<open>ThreadCache::getBatchNum\<close> receive sizes chosen by
  the client, so they are modelled on words.
\<close>

type_synonym size_t = "64 word"

definition ALIGNMENT :: size_t where
  "ALIGNMENT = 8"

definition MAX_BYTES :: size_t where
  "MAX_BYTES = 256 * 1024"

definition FREE_LIST_SIZE :: size_t where
  "FREE_LIST_SIZE = MAX_BYTES div ALIGNMENT"

text \<open>\<^verbatim>\<open>return (bytes + ALIGNMENT - 1) & ~(ALIGNMENT - 1);\<close>\<close>

definition roundUp :: "size_t \<Rightarrow> size_t" where
  "roundUp bytes = (bytes + ALIGNMENT - 1) AND NOT (ALIGNMENT - 1)"

text \<open>
  \<^verbatim>\<open>bytes = std::max(bytes, ALIGNMENT); return (bytes + ALIGNMENT - 1) / ALIGNMENT - 1;\<close>
\<close>

definition getIndex :: "size_t \<Rightarrow> size_t" where
  "getIndex bytes =
     (let bytes' = max bytes ALIGNMENT
      in (bytes' + ALIGNMENT - 1) div ALIGNMENT - 1)"

section \<open>Undefined behaviour as values\<close>

text \<open>
  What C++ leaves undefined is a branch of the model: dividing by zero, reading through a
  null or deleted \<^verbatim>\<open>Span*\<close>, and indexing a \<^verbatim>\<open>std::array\<close> outside its bounds.
\<close>

datatype error = DivisionByZero | NullDeref | DanglingDeref | OutOfBounds

section \<open>ThreadCache::getBatchNum\<close>

definition MAX_BATCH_SIZE :: size_t where
  "MAX_BATCH_SIZE = 4 * 1024"

definition baseNum :: "size_t \<Rightarrow> size_t" where
  "baseNum sz =
     (if sz \<le> 32 then 64
      else if sz \<le> 64 then 32
      else if sz \<le> 128 then 16
      else if sz \<le> 256 then 8
      else if sz \<le> 512 then 4
      else if sz \<le> 1024 then 2
      else 1)"

definition getBatchNum :: "size_t \<Rightarrow> error + size_t" where
  "getBatchNum sz =
     (if sz = 0 then Inl DivisionByZero
      else
        let maxNum = max 1 (MAX_BATCH_SIZE div sz)
        in Inr (max 1 (min (baseNum sz) maxNum)))"

text \<open>
  The batch rule in the words of the specification, on natural numbers: the base batch
  of the table, then \<open>max(1, min(base, CENTRAL_BATCH_MAX_BYTES / blockSize))\<close>.
\<close>

definition CENTRAL_BATCH_MAX_BYTES :: nat where
  "CENTRAL_BATCH_MAX_BYTES = 4096"

definition spec_base :: "nat \<Rightarrow> nat" where
  "spec_base blockSize =
     (if blockSize \<le> 32 then 64
      else if blockSize \<le> 64 then 32
      else if blockSize \<le> 128 then 16
      else if blockSize \<le> 256 then 8
      else if blockSize \<le> 512 then 4
      else if blockSize \<le> 1024 then 2
      else 1)"

definition spec_compute_batch :: "nat \<Rightarrow> nat" where
  "spec_compute_batch blockSize =
     max 1 (min (spec_base blockSize) (CENTRAL_BATCH_MAX_BYTES div blockSize))"

section \<open>PageCache\<close>

text \<open>
  Sizes and page counts are \<^verbatim>\<open>size_t\<close> words. Addresses (\<^verbatim>\<open>void*\<close>, \<^verbatim>\<open>char*\<close>) are natural
  numbers with \<open>0\<close> for \<^verbatim>\<open>nullptr\<close>. The additions that walk through a span (the split
  of \<^verbatim>\<open>allocateSpan\<close>, the carving of \<^verbatim>\<open>fetchRange\<close>) stay inside the pages of that span.
  The addition \<^verbatim>\<open>ptr + numPages * PAGE_SIZE\<close> of \<^verbatim>\<open>deallocateSpan\<close> takes \<^verbatim>\<open>numPages\<close> from the
  caller, unchecked: it is computed as the 64-bit machine does, modulo \<open>2 ^ 64\<close>
  (\<open>ptr_add\<close> below).

  The heap maps an address to the pointer-sized word stored there. Only the first word of
  a block is ever read or written by the allocator.
\<close>

type_synonym heap = "nat \<Rightarrow> nat"

definition PAGE_SIZE :: size_t where
  "PAGE_SIZE = 4096"

text \<open>
  \<^verbatim>\<open>struct Span { void* pageAddr; size_t numPages; Span* next; }\<close>. A \<^verbatim>\<open>Span*\<close> is a
  natural number, \<open>0\<close> for \<^verbatim>\<open>nullptr\<close>; the objects live in the store \<open>spans\<close>, so that a
  descriptor reached through \<^verbatim>\<open>freeSpans_\<close> and through \<^verbatim>\<open>spanMap_\<close> is the same object.
  \<^verbatim>\<open>new Span\<close> hands out \<open>nextSpan\<close>; a deleted descriptor leaves the store and its
  number is not reused, so a dangling pointer stays visible.
\<close>

record Span =
  pageAddr :: nat
  numPages :: size_t
  nxt :: nat

record PageCache =
  freeSpans :: "(size_t \<times> nat) list"
  spanMap :: "nat \<rightharpoonup> nat"
  spans :: "nat \<rightharpoonup> Span"
  nextSpan :: nat

text \<open>
  \<^verbatim>\<open>std::map<size_t, Span*>\<close> as an association list kept sorted by key, one entry per
  key: \<open>map_of\<close> is \<^verbatim>\<open>find\<close>, \<open>map_assign\<close> is \<^verbatim>\<open>m[k] = v\<close>, \<open>map_erase\<close> is \<^verbatim>\<open>erase\<close> and
  \<open>lower_bound\<close> is the first entry whose key is at least \<open>n\<close>.
\<close>

fun map_assign :: "(size_t \<times> 'v) list \<Rightarrow> size_t \<Rightarrow> 'v \<Rightarrow> (size_t \<times> 'v) list" where
  "map_assign [] k v = [(k, v)]"
| "map_assign ((k', v') # m) k v =
     (if k < k' then (k, v) # (k', v') # m
      else if k = k' then (k, v) # m
      else (k', v') # map_assign m k v)"

fun map_erase :: "(size_t \<times> 'v) list \<Rightarrow> size_t \<Rightarrow> (size_t \<times> 'v) list" where
  "map_erase [] k = []"
| "map_erase ((k', v') # m) k = (if k = k' then map_erase m k else (k', v') # map_erase m k)"

fun lower_bound :: "(size_t \<times> 'v) list \<Rightarrow> size_t \<Rightarrow> (size_t \<times> 'v) option" where
  "lower_bound [] n = None"
| "lower_bound ((k, v) # m) n = (if n \<le> k then Some (k, v) else lower_bound m n)"

text \<open>\<^verbatim>\<open>auto& list = m[k]\<close>: the entry is created with \<^verbatim>\<open>nullptr\<close> when the key is absent.\<close>

definition map_subscript :: "(size_t \<times> nat) list \<Rightarrow> size_t \<Rightarrow> nat \<times> (size_t \<times> nat) list" where
  "map_subscript m k =
     (case map_of m k of
        Some v \<Rightarrow> (v, m)
      | None \<Rightarrow> (0, map_assign m k 0))"

text \<open>Reading a field through a \<^verbatim>\<open>Span*\<close>.\<close>

definition deref :: "(nat \<rightharpoonup> Span) \<Rightarrow> nat \<Rightarrow> error + Span" where
  "deref ss p =
     (if p = 0 then Inl NullDeref
      else case ss p of None \<Rightarrow> Inl DanglingDeref | Some sp \<Rightarrow> Inr sp)"

text \<open>
  The operating system: \<open>mmap os n\<close> is what \<^verbatim>\<open>mmap\<close> answers to a request of \<open>n\<close> bytes,
  \<open>None\<close> for \<^verbatim>\<open>MAP_FAILED\<close>; \<open>malloc os n\<close> is what the host \<^verbatim>\<open>malloc\<close> answers.
\<close>

record os =
  mmap :: "nat \<Rightarrow> nat option"
  malloc :: "nat \<Rightarrow> nat"

text \<open>\<^verbatim>\<open>memset(ptr, 0, size)\<close>\<close>

definition memset_zero :: "heap \<Rightarrow> nat \<Rightarrow> nat \<Rightarrow> heap" where
  "memset_zero m p n = (\<lambda>a. if p \<le> a \<and> a < p + n then 0 else m a)"

definition systemAlloc :: "heap \<Rightarrow> size_t \<Rightarrow> os \<Rightarrow> nat \<times> heap" where
  "systemAlloc m n env =
     (let sz = n * PAGE_SIZE
      in (case mmap env (unat sz) of
            None \<Rightarrow> (0, m)
          | Some p \<Rightarrow> (p, memset_zero m p (unat sz))))"

definition allocateSpan ::
  "PageCache \<Rightarrow> heap \<Rightarrow> size_t \<Rightarrow> os \<Rightarrow> error + (nat \<times> PageCache \<times> heap)" where
  "allocateSpan pc m n env =
     (case lower_bound (freeSpans pc) n of
        Some (key, sp) \<Rightarrow>
          (case deref (spans pc) sp of
             Inl e \<Rightarrow> Inl e
           | Inr span \<Rightarrow>
               let fs1 = (if nxt span \<noteq> 0 then map_assign (freeSpans pc) key (nxt span)
                          else map_erase (freeSpans pc) key)
               in if numPages span > n then
                    let newSpan = nextSpan pc;
                        newAddr = pageAddr span + unat (n * PAGE_SIZE);
                        newNum = numPages span - n;
                        (list, fs2) = map_subscript fs1 newNum;
                        fs3 = map_assign fs2 newNum newSpan;
                        ss = (spans pc)
                               (newSpan \<mapsto> \<lparr>pageAddr = newAddr, numPages = newNum, nxt = list\<rparr>,
                                sp \<mapsto> span\<lparr>numPages := n\<rparr>)
                    in Inr (pageAddr span,
                            pc\<lparr>freeSpans := fs3,
                               spanMap := (spanMap pc)(pageAddr span \<mapsto> sp),
                               spans := ss,
                               nextSpan := Suc newSpan\<rparr>,
                            m)
                  else
                    Inr (pageAddr span,
                         pc\<lparr>freeSpans := fs1,
                            spanMap := (spanMap pc)(pageAddr span \<mapsto> sp)\<rparr>,
                         m))
      | None \<Rightarrow>
          (case systemAlloc m n env of
             (memory, m') \<Rightarrow>
               if memory = 0 then Inr (0, pc, m')
               else
                 let span = nextSpan pc
                 in Inr (memory,
                         pc\<lparr>spanMap := (spanMap pc)(memory \<mapsto> span),
                            spans := (spans pc)
                              (span \<mapsto> \<lparr>pageAddr = memory, numPages = n, nxt = 0\<rparr>),
                            nextSpan := Suc span\<rparr>,
                         m')))"

text \<open>
  The search of \<^verbatim>\<open>deallocateSpan\<close> for \<^verbatim>\<open>nextSpan\<close> behind the head of its list:
  \<^verbatim>\<open>while(prev->next) { if(prev->next == nextSpan) { prev->next = nextSpan->next;
  found = true; break; } prev = prev->next; }\<close>. The list may be cyclic, so the loop may
  run forever: \<open>None\<close> is the run that does not return.
\<close>

partial_function (option) unlink ::
  "(nat \<rightharpoonup> Span) \<Rightarrow> nat \<Rightarrow> nat \<Rightarrow> (error + bool \<times> (nat \<rightharpoonup> Span)) option" where
  "unlink ss prev target =
     (case deref ss prev of
        Inl e \<Rightarrow> Some (Inl e)
      | Inr p \<Rightarrow>
          if nxt p = 0 then Some (Inr (False, ss))
          else if nxt p = target then
            (case deref ss target of
               Inl e \<Rightarrow> Some (Inl e)
             | Inr t \<Rightarrow> Some (Inr (True, ss(prev \<mapsto> p\<lparr>nxt := nxt t\<rparr>))))
          else unlink ss (nxt p) target)"

text \<open>The tail of \<^verbatim>\<open>deallocateSpan\<close>: head insertion into \<^verbatim>\<open>freeSpans_[span->numPages]\<close>.\<close>

definition insert_free :: "PageCache \<Rightarrow> nat \<Rightarrow> error + PageCache" where
  "insert_free pc sp =
     (case deref (spans pc) sp of
        Inl e \<Rightarrow> Inl e
      | Inr span \<Rightarrow>
          let (list, fs1) = map_subscript (freeSpans pc) (numPages span)
          in Inr (pc\<lparr>freeSpans := map_assign fs1 (numPages span) sp,
                    spans := (spans pc)(sp \<mapsto> span\<lparr>nxt := list\<rparr>)\<rparr>))"

text \<open>The merge step once \<^verbatim>\<open>found\<close> is true.\<close>

definition merge_next :: "PageCache \<Rightarrow> nat \<Rightarrow> nat \<Rightarrow> nat \<Rightarrow> error + PageCache" where
  "merge_next pc sp nsp nextAddr =
     (case deref (spans pc) sp of
        Inl e \<Rightarrow> Inl e
      | Inr span \<Rightarrow>
          (case deref (spans pc) nsp of
             Inl e \<Rightarrow> Inl e
           | Inr nextSp \<Rightarrow>
               Inr (pc\<lparr>spans := ((spans pc)
                                   (sp \<mapsto> span\<lparr>numPages := numPages span + numPages nextSp\<rparr>))
                                   (nsp := None),
                         spanMap := (spanMap pc)(nextAddr := None)\<rparr>)))"

text \<open>
  \<^verbatim>\<open>static_cast<char*>(ptr) + k\<close> on the 64-bit machine: the sum wraps around at \<open>2 ^ 64\<close>.
\<close>

definition ptr_add :: "nat \<Rightarrow> size_t \<Rightarrow> nat" where
  "ptr_add p k = (p + unat k) mod 2 ^ 64"

definition deallocateSpan :: "PageCache \<Rightarrow> nat \<Rightarrow> size_t \<Rightarrow> (error + PageCache) option" where
  "deallocateSpan pc ptr n =
     (case spanMap pc ptr of
        None \<Rightarrow> Some (Inr pc)
      | Some sp \<Rightarrow>
          let nextAddr = ptr_add ptr (n * PAGE_SIZE)
          in (case spanMap pc nextAddr of
               None \<Rightarrow> Some (insert_free pc sp)
             | Some nsp \<Rightarrow>
                 (case deref (spans pc) nsp of
                    Inl e \<Rightarrow> Some (Inl e)
                  | Inr nextSp \<Rightarrow>
                      let (nextList, fs1) = map_subscript (freeSpans pc) (numPages nextSp);
                          pc1 = pc\<lparr>freeSpans := fs1\<rparr>
                      in if nextList = nsp then
                           let pc2 = pc1\<lparr>freeSpans := map_assign fs1 (numPages nextSp) (nxt nextSp)\<rparr>
                           in Some (case merge_next pc2 sp nsp nextAddr of
                                      Inl e \<Rightarrow> Inl e
                                    | Inr pc3 \<Rightarrow> insert_free pc3 sp)
                         else if nextList \<noteq> 0 then
                           (case unlink (spans pc1) nextList nsp of
                              None \<Rightarrow> None
                            | Some (Inl e) \<Rightarrow> Some (Inl e)
                            | Some (Inr (found, ss)) \<Rightarrow>
                                let pc2 = pc1\<lparr>spans := ss\<rparr>
                                in if found then
                                     Some (case merge_next pc2 sp nsp nextAddr of
                                             Inl e \<Rightarrow> Inl e
                                           | Inr pc3 \<Rightarrow> insert_free pc3 sp)
                                   else Some (insert_free pc2 sp))
                         else Some (insert_free pc1 sp))))"


text \<open>
  \<open>linked ss h xs\<close>: starting at the \<^verbatim>\<open>Span*\<close> \<open>h\<close> and following \<^verbatim>\<open>next\<close> through the
  store \<open>ss\<close>, the descriptors met are exactly \<open>xs\<close>, and the last one has a null
  \<^verbatim>\<open>next\<close>. \<open>free_head pc k\<close> is the head of the list \<^verbatim>\<open>freeSpans_[k]\<close>, null when the
  map has no entry for \<open>k\<close>.
\<close>

fun linked :: "(nat \<rightharpoonup> Span) \<Rightarrow> nat \<Rightarrow> nat list \<Rightarrow> bool" where
  "linked ss h [] = (h = 0)"
| "linked ss h (x # xs) =
     (h = x \<and> x \<noteq> 0 \<and> (case ss x of None \<Rightarrow> False | Some sp \<Rightarrow> linked ss (nxt sp) xs))"


section \<open>The allocator state\<close>

text \<open>
  The thread cache of one thread, the central cache and the page cache over one heap
  (section \<open>Runs of the allocator\<close> puts the caches of several threads together). The arrays
  \<^verbatim>\<open>freeList_\<close>, \<^verbatim>\<open>freeListSize_\<close> and \<^verbatim>\<open>centralFreeList_\<close> have \<^verbatim>\<open>FREE_LIST_SIZE\<close> slots and
  are read at \<open>unat index\<close>. The spin locks of the central cache are not modelled: every
  operation runs alone from the acquired to the released lock.
\<close>

record allocator =
  mem :: heap
  freeList :: "nat \<Rightarrow> nat"
  freeListSize :: "nat \<Rightarrow> size_t"
  centralFreeList :: "nat \<Rightarrow> nat"
  pageCache :: PageCache

section \<open>CentralCache\<close>

definition SPAN_PAGES :: size_t where
  "SPAN_PAGES = 8"

text \<open>
  The page count that \<^verbatim>\<open>fetchFromPageCache\<close> passes to \<^verbatim>\<open>allocateSpan\<close>: \<^verbatim>\<open>SPAN_PAGES\<close>
  for a block of at most 32 KiB, the rounded-up \<^verbatim>\<open>numPages\<close> otherwise.
\<close>

definition requestedPages :: "size_t \<Rightarrow> size_t" where
  "requestedPages sz =
     (let numPages = (sz + PAGE_SIZE - 1) div PAGE_SIZE
      in if sz \<le> SPAN_PAGES * PAGE_SIZE then SPAN_PAGES else numPages)"

definition fetchFromPageCache ::
  "allocator \<Rightarrow> size_t \<Rightarrow> os \<Rightarrow> error + (nat \<times> allocator)" where
  "fetchFromPageCache st sz env =
     (case allocateSpan (pageCache st) (mem st) (requestedPages sz) env of
        Inl e \<Rightarrow> Inl e
      | Inr (p, pc, m) \<Rightarrow> Inr (p, st\<lparr>mem := m, pageCache := pc\<rparr>))"

text \<open>\<^verbatim>\<open>size_t totalBlocks = (SPAN_PAGES * PageCache::PAGE_SIZE) / size;\<close>\<close>

definition totalBlocks :: "size_t \<Rightarrow> size_t" where
  "totalBlocks sz = (SPAN_PAGES * PAGE_SIZE) div sz"

text \<open>
  \<^verbatim>\<open>for(size_t i = \<dots>; i < n; ++i) { *(void**)(start + (i - 1) * size) = start + i * size; }\<close>.
  The counters are below \<open>totalBlocks\<close>, so the products do not wrap and the loop runs on
  natural numbers.
\<close>

function link_blocks :: "heap \<Rightarrow> nat \<Rightarrow> nat \<Rightarrow> nat \<Rightarrow> nat \<Rightarrow> heap" where
  "link_blocks m start sz i n =
     (if i < n then link_blocks (m(start + (i - 1) * sz := start + i * sz)) start sz (Suc i) n
      else m)"
  by pat_completeness auto
termination
  by (relation "measure (\<lambda>(m, start, sz, i, n). n - i)") auto

declare link_blocks.simps [simp del]

text \<open>
  \<^verbatim>\<open>while(current && count < batchNum) { prev = current; current = *(void**)current;
  count++; }\<close>, returning \<open>(current, prev)\<close>.
\<close>

function take_blocks :: "heap \<Rightarrow> nat \<Rightarrow> nat \<Rightarrow> nat \<Rightarrow> nat \<Rightarrow> nat \<times> nat" where
  "take_blocks m current prev count batchNum =
     (if current \<noteq> 0 \<and> count < batchNum
      then take_blocks m (m current) current (Suc count) batchNum
      else (current, prev))"
  by pat_completeness auto
termination
  by (relation "measure (\<lambda>(m, current, prev, count, batchNum). batchNum - count)") auto

declare take_blocks.simps [simp del]

text \<open>
  Both carving steps of \<^verbatim>\<open>fetchRange\<close> have the same shape: the loop from \<open>i\<close> up to
  \<open>n\<close>, then \<^verbatim>\<open>*(void**)(start + (n - 1) * size) = nullptr\<close>.
\<close>

definition link_chain :: "heap \<Rightarrow> nat \<Rightarrow> nat \<Rightarrow> nat \<Rightarrow> nat \<Rightarrow> heap" where
  "link_chain m start sz i n = (link_blocks m start sz i n)(start + (n - 1) * sz := 0)"

definition fetchRange ::
  "allocator \<Rightarrow> size_t \<Rightarrow> size_t \<Rightarrow> os \<Rightarrow> error + (nat \<times> allocator)" where
  "fetchRange st index batchNum env =
     (if index \<ge> FREE_LIST_SIZE \<or> batchNum = 0 then Inr (0, st)
      else
        let result = centralFreeList st (unat index)
        in if result = 0 then
             let sz = (index + 1) * ALIGNMENT
             in (case fetchFromPageCache st sz env of
                   Inl e \<Rightarrow> Inl e
                 | Inr (start, st1) \<Rightarrow>
                     if start = 0 then Inr (0, st1)
                     else
                       let allocBlocks = min batchNum (totalBlocks sz);
                           m1 = (if allocBlocks > 1
                                 then link_chain (mem st1) start (unat sz) 1 (unat allocBlocks)
                                 else mem st1);
                           st2 = st1\<lparr>mem := m1\<rparr>
                       in if totalBlocks sz > allocBlocks then
                            let remainStart = start + unat allocBlocks * unat sz;
                                m2 = link_chain m1 start (unat sz)
                                       (unat allocBlocks + 1) (unat (totalBlocks sz))
                            in Inr (start,
                                    st2\<lparr>mem := m2,
                                        centralFreeList :=
                                          (centralFreeList st2)(unat index := remainStart)\<rparr>)
                          else Inr (start, st2))
           else
             (case take_blocks (mem st) result 0 0 (unat batchNum) of
                (current, prev) \<Rightarrow>
                  let m1 = (if prev \<noteq> 0 then (mem st)(prev := 0) else mem st)
                  in Inr (result,
                          st\<lparr>mem := m1,
                             centralFreeList := (centralFreeList st)(unat index := current)\<rparr>)))"

text \<open>
  \<^verbatim>\<open>while(*(void**)end != nullptr && count < size) { end = *(void**)end; count++; }\<close>
\<close>

function find_end :: "heap \<Rightarrow> nat \<Rightarrow> nat \<Rightarrow> nat \<Rightarrow> nat" where
  "find_end m e count bound =
     (if m e \<noteq> 0 \<and> count < bound then find_end m (m e) (Suc count) bound else e)"
  by pat_completeness auto
termination
  by (relation "measure (\<lambda>(m, e, count, bound). bound - count)") auto

declare find_end.simps [simp del]

definition returnRange :: "allocator \<Rightarrow> nat \<Rightarrow> size_t \<Rightarrow> size_t \<Rightarrow> allocator" where
  "returnRange st start sz index =
     (if start = 0 \<or> index \<ge> FREE_LIST_SIZE then st
      else
        let e = find_end (mem st) start 1 (unat sz);
            current = centralFreeList st (unat index)
        in st\<lparr>mem := (mem st)(e := current),
              centralFreeList := (centralFreeList st)(unat index := start)\<rparr>)"

section \<open>ThreadCache\<close>

definition fetchFromCentralCache ::
  "allocator \<Rightarrow> size_t \<Rightarrow> os \<Rightarrow> error + (nat \<times> allocator)" where
  "fetchFromCentralCache st index env =
     (let sz = (index + 1) * ALIGNMENT
      in (case getBatchNum sz of
            Inl e \<Rightarrow> Inl e
          | Inr batchNum \<Rightarrow>
              (case fetchRange st index batchNum env of
                 Inl e \<Rightarrow> Inl e
               | Inr (start, st1) \<Rightarrow>
                   if start = 0 then Inr (0, st1)
                   else
                     let st2 = st1\<lparr>freeListSize := (freeListSize st1)
                                 (unat index := freeListSize st1 (unat index) + batchNum)\<rparr>
                     in if batchNum > 1
                        then Inr (start,
                                  st2\<lparr>freeList := (freeList st2)(unat index := mem st2 start)\<rparr>)
                        else Inr (start, st2))))"

definition allocate :: "allocator \<Rightarrow> size_t \<Rightarrow> os \<Rightarrow> error + (nat \<times> allocator)" where
  "allocate st size0 env =
     (let sz = (if size0 = 0 then ALIGNMENT else size0)
      in if sz > MAX_BYTES then Inr (malloc env (unat sz), st)
         else
           let alignedSize = roundUp sz;
               index = getIndex alignedSize
           in if \<not> index < FREE_LIST_SIZE then Inl OutOfBounds
              else
                let ptr = freeList st (unat index)
                in if ptr \<noteq> 0 then
                     Inr (ptr,
                          st\<lparr>freeListSize := (freeListSize st)
                               (unat index := freeListSize st (unat index) - 1),
                             freeList := (freeList st)(unat index := mem st ptr)\<rparr>)
                   else fetchFromCentralCache st index env)"

definition shouldReturnToCentralCache :: "allocator \<Rightarrow> size_t \<Rightarrow> bool" where
  "shouldReturnToCentralCache st index =
     (let threshold = 64 in freeListSize st (unat index) > threshold)"

text \<open>
  \<^verbatim>\<open>for(size_t i = 0; i < keepNum - 1; ++i) { splitNode = *(void**)splitNode;
  if(splitNode == nullptr) { returnNum = batchNum - (i + 1); break; } }\<close>, returning
  \<open>(splitNode, returnNum)\<close>.
\<close>

function find_split ::
  "heap \<Rightarrow> nat \<Rightarrow> nat \<Rightarrow> nat \<Rightarrow> size_t \<Rightarrow> size_t \<Rightarrow> nat \<times> size_t" where
  "find_split m splitNode i bound batchNum returnNum =
     (if i < bound then
        (let s = m splitNode
         in if s = 0 then (0, batchNum - (of_nat i + 1))
            else find_split m s (Suc i) bound batchNum returnNum)
      else (splitNode, returnNum))"
  by pat_completeness auto
termination
  by (relation "measure (\<lambda>(m, splitNode, i, bound, batchNum, returnNum). bound - i)") auto

declare find_split.simps [simp del]

definition returnToCentralCache :: "allocator \<Rightarrow> nat \<Rightarrow> size_t \<Rightarrow> error + allocator" where
  "returnToCentralCache st start sz =
     (let index = getIndex sz;
          alignedSize = roundUp sz
      in if \<not> index < FREE_LIST_SIZE then Inl OutOfBounds
         else
           let batchNum = freeListSize st (unat index)
           in if batchNum \<le> 1 then Inr st
              else
                let keepNum = max (batchNum div 4) 1;
                    returnNum = batchNum - keepNum
                in if start = 0 \<and> 0 < unat (keepNum - 1) then Inl NullDeref
                   else
                     (case find_split (mem st) start 0 (unat (keepNum - 1)) batchNum returnNum of
                        (splitNode, returnNum') \<Rightarrow>
                          if splitNode \<noteq> 0 then
                            let nextNode = mem st splitNode;
                                st1 = st\<lparr>mem := (mem st)(splitNode := 0),
                                         freeList := (freeList st)(unat index := start),
                                         freeListSize := (freeListSize st)(unat index := keepNum)\<rparr>
                            in if returnNum' > 0 \<and> nextNode \<noteq> 0
                               then Inr (returnRange st1 nextNode (returnNum' * alignedSize) index)
                               else Inr st1
                          else Inr st))"

definition deallocate :: "allocator \<Rightarrow> nat \<Rightarrow> size_t \<Rightarrow> error + allocator" where
  "deallocate st ptr sz =
     (if sz > MAX_BYTES then Inr st
      else
        let index = getIndex sz
        in if \<not> index < FREE_LIST_SIZE then Inl OutOfBounds
           else if ptr = 0 then Inl NullDeref
           else
             let st1 = st\<lparr>mem := (mem st)(ptr := freeList st (unat index)),
                          freeList := (freeList st)(unat index := ptr),
                          freeListSize := (freeListSize st)
                            (unat index := freeListSize st (unat index) + 1)\<rparr>
             in if shouldReturnToCentralCache st1 index
                then returnToCentralCache st1 (freeList st1 (unat index)) sz
                else Inr st1)"


section \<open>Free lists in the heap\<close>

text \<open>
  \<open>chain m h xs\<close>: starting at the head \<open>h\<close> and following the first word of each block
  in the heap \<open>m\<close>, the blocks met are exactly \<open>xs\<close>, and the first word of the last one
  is null.
\<close>

fun chain :: "heap \<Rightarrow> nat \<Rightarrow> nat list \<Rightarrow> bool" where
  "chain m h [] = (h = 0)"
| "chain m h (x # xs) = (h = x \<and> x \<noteq> 0 \<and> chain m (m x) xs)"

text \<open>The head pointer of a list of blocks, null for the empty list.\<close>

definition hd0 :: "nat list \<Rightarrow> nat" where
  "hd0 xs = (case xs of [] \<Rightarrow> 0 | x # _ \<Rightarrow> x)"

text \<open>The addresses \<open>start + j * sz\<close> of the blocks \<open>i \<le> j < n\<close> of a span.\<close>

definition blocks :: "nat \<Rightarrow> nat \<Rightarrow> nat \<Rightarrow> nat \<Rightarrow> nat list" where
  "blocks start sz i n = map (\<lambda>j. start + j * sz) [i..<n]"

section \<open>The initial state\<close>

text \<open>
  \<^verbatim>\<open>PageCache() = default\<close> leaves both maps empty, the constructor of \<^verbatim>\<open>CentralCache\<close>
  stores \<^verbatim>\<open>nullptr\<close> in every list head, and the thread-local \<^verbatim>\<open>ThreadCache\<close> is
  zero-initialised. The heap content is a parameter.
\<close>

definition init_pageCache :: PageCache where
  "init_pageCache = \<lparr>freeSpans = [], spanMap = Map.empty, spans = Map.empty, nextSpan = 1\<rparr>"

definition init_allocator :: "heap \<Rightarrow> allocator" where
  "init_allocator m =
     \<lparr>mem = m,
      freeList = (\<lambda>i. 0),
      freeListSize = (\<lambda>i. 0),
      centralFreeList = (\<lambda>i. 0),
      pageCache = init_pageCache\<rparr>"

text \<open>An operating system that maps every request at the same address.\<close>

definition os_at :: "nat \<Rightarrow> os" where
  "os_at p = \<lparr>mmap = (\<lambda>n. Some p), malloc = (\<lambda>n. 0)\<rparr>"

section \<open>A page cache that hands out a used span\<close>

text \<open>
  The state after \<^verbatim>\<open>allocateSpan(8)\<close> was served by the operating system at address 65536,
  the holder of the span wrote 12345 into its first word, and \<^verbatim>\<open>deallocateSpan(65536, 8)\<close>
  put the span on \<^verbatim>\<open>freeSpans_[8]\<close>: the span is free and its memory is not zero.
\<close>

definition recycled_state :: allocator where
  "recycled_state =
     \<lparr>mem = (\<lambda>a. if a = 65536 then 12345 else 0),
      freeList = (\<lambda>i. 0),
      freeListSize = (\<lambda>i. 0),
      centralFreeList = (\<lambda>i. 0),
      pageCache =
        \<lparr>freeSpans = [(8, 1)],
         spanMap = [65536 \<mapsto> 1],
         spans = [1 \<mapsto> \<lparr>pageAddr = 65536, numPages = 8, nxt = 0\<rparr>],
         nextSpan = 2\<rparr>\<rparr>"

section \<open>States used as examples\<close>

text \<open>
  A free page in front of an allocated one: after \<^verbatim>\<open>allocateSpan(1)\<close> was served by the
  operating system at 65536, a second \<^verbatim>\<open>allocateSpan(1)\<close> at 69632, and
  \<^verbatim>\<open>deallocateSpan(65536, 1)\<close> (lemma \<open>left_free_spans_reached\<close>).
\<close>

definition left_free_spans :: PageCache where
  "left_free_spans =
     \<lparr>freeSpans = [(1, 1)],
      spanMap = [65536 \<mapsto> 1, 69632 \<mapsto> 2],
      spans = [1 \<mapsto> \<lparr>pageAddr = 65536, numPages = 1, nxt = 0\<rparr>,
               2 \<mapsto> \<lparr>pageAddr = 69632, numPages = 1, nxt = 0\<rparr>],
      nextSpan = 3\<rparr>"


text \<open>
  A thread cache whose counter for size class 2047 (blocks of 16384 bytes, batch count 1)
  is ahead of its list: every \<^verbatim>\<open>allocate\<close> that misses adds the batch count to
  \<^verbatim>\<open>freeListSize_\<close> and keeps no block, so 64 allocations give a counter of 64 and an
  empty list; the first \<^verbatim>\<open>deallocate\<close> then leaves one block and a counter of 65.
\<close>

definition overcounted_state :: allocator where
  "overcounted_state =
     \<lparr>mem = (\<lambda>a. 0),
      freeList = (\<lambda>i. if i = 2047 then 65536 else 0),
      freeListSize = (\<lambda>i. if i = 2047 then 65 else 0),
      centralFreeList = (\<lambda>i. 0),
      pageCache = init_pageCache\<rparr>"

text \<open>
  A thread cache that holds twenty free blocks of size class 2047 with a counter of 64.
\<close>

definition full_thread_state :: allocator where
  "full_thread_state =
     \<lparr>mem = (\<lambda>a. if 65536 \<le> a \<and> a < 65536 + 19 * 16384 \<and> 16384 dvd (a - 65536)
                  then a + 16384 else 0),
      freeList = (\<lambda>i. if i = 2047 then 65536 else 0),
      freeListSize = (\<lambda>i. if i = 2047 then 64 else 0),
      centralFreeList = (\<lambda>i. 0),
      pageCache = init_pageCache\<rparr>"

section \<open>Runs of the allocator\<close>

text \<open>
  Size class \<open>i\<close> has blocks of \<open>csize i\<close> bytes. A span carved for class \<open>i\<close> at
  \<open>s\<close> offers the block addresses \<open>grid s i\<close>: the \<open>totalBlocks\<close> blocks that
  \<^verbatim>\<open>fetchRange\<close> links, or the single block at \<open>s\<close> that it returns when \<open>totalBlocks\<close> is
  zero. \<open>rsize i\<close> is the number of bytes that \<^verbatim>\<open>fetchFromPageCache\<close> requests for the class.
\<close>

definition csize :: "nat \<Rightarrow> nat" where
  "csize i = (i + 1) * 8"

definition nblocks :: "nat \<Rightarrow> nat" where
  "nblocks i = max 1 (32768 div csize i)"

definition grid :: "nat \<Rightarrow> nat \<Rightarrow> nat set" where
  "grid s i = set (blocks s (csize i) 0 (nblocks i))"

definition rsize :: "nat \<Rightarrow> nat" where
  "rsize i = unat (requestedPages (of_nat (csize i)) * PAGE_SIZE)"

text \<open>The addresses inside the spans that the page cache has obtained.\<close>

definition mapped :: "allocator \<Rightarrow> nat \<Rightarrow> bool" where
  "mapped st a =
     (\<exists>sp span. spans (pageCache st) sp = Some span \<and>
        pageAddr span \<le> a \<and> a < pageAddr span + unat (numPages span * PAGE_SIZE))"

text \<open>
  What the operating system promises: a successful \<^verbatim>\<open>mmap\<close> of \<open>n\<close> bytes returns a
  non-null page-aligned address, and the \<open>n\<close> bytes overlap no span mapped before.
\<close>

definition good_os :: "allocator \<Rightarrow> os \<Rightarrow> bool" where
  "good_os st env =
     (\<forall>n p. mmap env n = Some p \<longrightarrow>
        p \<noteq> 0 \<and> 4096 dvd p \<and> (\<forall>a. p \<le> a \<and> a < p + n \<longrightarrow> \<not> mapped st a))"

text \<open>
  Several threads. \<^verbatim>\<open>ThreadCache\<close> is \<^verbatim>\<open>thread_local\<close>: every thread has its own arrays
  \<^verbatim>\<open>freeList_\<close> and \<^verbatim>\<open>freeListSize_\<close>, while the heap, the central cache and the page cache
  are shared. \<open>tc t\<close> holds the two arrays of thread \<open>t\<close>; the thread runs an operation on
  the allocator state with its own arrays in place (\<open>as_thread\<close>) and leaves them behind
  afterwards (\<open>cache_of\<close>).
\<close>

type_synonym cache = "(nat \<Rightarrow> nat) \<times> (nat \<Rightarrow> size_t)"

definition as_thread :: "(nat \<Rightarrow> cache) \<Rightarrow> nat \<Rightarrow> allocator \<Rightarrow> allocator" where
  "as_thread tc t st = st\<lparr>freeList := fst (tc t), freeListSize := snd (tc t)\<rparr>"

definition cache_of :: "allocator \<Rightarrow> cache" where
  "cache_of st = (freeList st, freeListSize st)"

text \<open>
  The states that well-behaved clients can reach, with the blocks they hold: \<open>(p, sz)\<close> is
  held when \<^verbatim>\<open>allocate(sz)\<close> returned \<open>p\<close> from the pool (\<open>sz\<close> after the replacement of 0
  by \<^verbatim>\<open>ALIGNMENT\<close>) and \<^verbatim>\<open>deallocate(p, sz)\<close> has not been called since. Any thread
  allocates, gives back a block that is held (by whichever thread it was obtained) with
  the size that was asked for, gives back a block of more than \<^verbatim>\<open>MAX_BYTES\<close>, and writes to
  the bytes of a held block or to memory outside every span. Each operation is one step
  of the run: a thread works on its own arrays and enters the central cache under the
  spin lock of the size class.
\<close>

inductive reachable :: "allocator \<Rightarrow> (nat \<Rightarrow> cache) \<Rightarrow> (nat \<times> size_t) set \<Rightarrow> bool" where
  start: "reachable (init_allocator m) (\<lambda>t. (\<lambda>i. 0, \<lambda>i. 0)) {}"
| allocated: "reachable st tc live \<Longrightarrow> good_os st env \<Longrightarrow>
          allocate (as_thread tc t st) sz env = Inr (p, st') \<Longrightarrow>
          sz' = (if sz = 0 then ALIGNMENT else sz) \<Longrightarrow>
          reachable st' (tc(t := cache_of st'))
            (if p \<noteq> 0 \<and> sz' \<le> MAX_BYTES then insert (p, sz') live else live)"
| deallocated: "reachable st tc live \<Longrightarrow> (p, sz') \<in> live \<Longrightarrow>
          sz' = (if sz = 0 then ALIGNMENT else sz) \<Longrightarrow>
          deallocate (as_thread tc t st) p sz = Inr st' \<Longrightarrow>
          reachable st' (tc(t := cache_of st')) (live - {(p, sz')})"
| released: "reachable st tc live \<Longrightarrow> MAX_BYTES < sz \<Longrightarrow>
          deallocate (as_thread tc t st) p sz = Inr st' \<Longrightarrow>
          reachable st' (tc(t := cache_of st')) live"
| written: "reachable st tc live \<Longrightarrow>
          (\<exists>p sz. (p, sz) \<in> live \<and> p \<le> a \<and> a < p + unat sz) \<or> \<not> mapped st a \<Longrightarrow>
          reachable (st\<lparr>mem := (mem st)(a := v)\<rparr>) tc live"

text \<open>
  A run of two threads: thread 0 allocates 16384 bytes in the initial state, served by the
  operating system at 65536 (\<open>first_alloc\<close>); thread 1 gives the block back
  (\<open>given_back\<close>). \<open>no_memory\<close> is an operating system that refuses every request.
\<close>

definition no_memory :: os where
  "no_memory = \<lparr>mmap = (\<lambda>n. None), malloc = (\<lambda>n. 0)\<rparr>"

definition first_alloc :: allocator where
  "first_alloc =
     snd (projr (allocate (as_thread (\<lambda>t. (\<lambda>i. 0, \<lambda>i. 0)) 0 (init_allocator (\<lambda>a. 0)))
                   16384 (os_at 65536)))"

definition first_caches :: "nat \<Rightarrow> cache" where
  "first_caches = (\<lambda>t. (\<lambda>i. 0, \<lambda>i. 0))(0 := cache_of first_alloc)"

definition given_back :: allocator where
  "given_back = projr (deallocate (as_thread first_caches 1 first_alloc) 65536 16384)"

definition given_back_caches :: "nat \<Rightarrow> cache" where
  "given_back_caches = first_caches(1 := cache_of given_back)"

text \<open>
  The invariant of the runs, for thread lists \<open>T\<close>, central lists \<open>C\<close> and carved
  spans \<open>G\<close> (start address and size class). \<open>chains_ok\<close>: every list head starts a
  null-terminated chain. \<open>blocks_ok\<close>: every free block and every held block is a grid
  address of a carved span of its class, and no block is free twice or free and held.
  \<open>spans_ok\<close>: carved spans are aligned, lie in mapped memory and do not overlap, and
  the page cache has no free span.
\<close>

definition chains_ok :: "(nat \<Rightarrow> nat list) \<Rightarrow> (nat \<Rightarrow> nat list) \<Rightarrow> allocator \<Rightarrow> bool" where
  "chains_ok T C st =
     ((\<forall>i. chain (mem st) (freeList st i) (T i)) \<and>
      (\<forall>i. chain (mem st) (centralFreeList st i) (C i)))"

definition blocks_ok ::
  "(nat \<Rightarrow> nat list) \<Rightarrow> (nat \<Rightarrow> nat list) \<Rightarrow> (nat \<times> nat) set \<Rightarrow>
   (nat \<times> size_t) set \<Rightarrow> bool" where
  "blocks_ok T C G live =
     ((\<forall>i x. x \<in> set (T i) \<union> set (C i) \<longrightarrow> (\<exists>s. (s, i) \<in> G \<and> x \<in> grid s i)) \<and>
      (\<forall>i. set (T i) \<inter> set (C i) = {}) \<and>
      (\<forall>p sz. (p, sz) \<in> live \<longrightarrow>
         sz \<le> MAX_BYTES \<and>
         (\<exists>s. (s, unat (getIndex sz)) \<in> G \<and> p \<in> grid s (unat (getIndex sz))) \<and>
         (\<forall>i. p \<notin> set (T i) \<union> set (C i)) \<and>
         (\<forall>sz'. (p, sz') \<in> live \<longrightarrow> sz' = sz)))"

definition spans_ok :: "(nat \<times> nat) set \<Rightarrow> allocator \<Rightarrow> bool" where
  "spans_ok G st =
     ((\<forall>s i. (s, i) \<in> G \<longrightarrow>
         i < 32768 \<and> 0 < s \<and> 8 dvd s \<and>
         (\<forall>a. s \<le> a \<and> a < s + rsize i \<longrightarrow> mapped st a) \<and>
         (\<forall>s' j. (s', j) \<in> G \<and> (s', j) \<noteq> (s, i) \<longrightarrow>
            s + rsize i \<le> s' \<or> s' + rsize j \<le> s)) \<and>
      freeSpans (pageCache st) = [] \<and>
      (\<forall>sp. nextSpan (pageCache st) \<le> sp \<longrightarrow> spans (pageCache st) sp = None))"

definition inv_with ::
  "(nat \<Rightarrow> nat list) \<Rightarrow> (nat \<Rightarrow> nat list) \<Rightarrow> (nat \<times> nat) set \<Rightarrow>
   allocator \<Rightarrow> (nat \<times> size_t) set \<Rightarrow> bool" where
  "inv_with T C G st live = (chains_ok T C st \<and> blocks_ok T C G live \<and> spans_ok G st)"

definition invariant :: "allocator \<Rightarrow> (nat \<times> size_t) set \<Rightarrow> bool" where
  "invariant st live = (\<exists>T C G. inv_with T C G st live)"

text \<open>
  With several threads, \<open>S t\<close> are the lists of thread \<open>t\<close>. To the thread that runs, the
  blocks in the lists of the other threads (\<open>frozen\<close>) are like held blocks: it does not
  touch them. The invariant of the runs holds from the point of view of every thread.
\<close>

definition frozen :: "(nat \<Rightarrow> nat \<Rightarrow> nat list) \<Rightarrow> nat \<Rightarrow> (nat \<times> size_t) set" where
  "frozen S t = {(x, of_nat (csize i)) | x u i. u \<noteq> t \<and> x \<in> set (S u i)}"

definition invariant_all ::
  "allocator \<Rightarrow> (nat \<Rightarrow> cache) \<Rightarrow> (nat \<times> size_t) set \<Rightarrow> bool" where
  "invariant_all st tc live =
     (\<exists>S C G. \<forall>t. inv_with (S t) C G (as_thread tc t st) (live \<union> frozen S t))"

section \<open>Word arithmetic of the size classes\<close>

lemma and_not_7_shift: "(x::size_t) AND NOT 7 = push_bit 3 (drop_bit 3 x)"
proof -
  have "(7::size_t) = mask 3"
    by (simp add: mask_eq_exp_minus_1)
  then show ?thesis
    by (auto simp add: bit_eq_iff bit_simps)
qed

lemma unat_and_not_7: "unat ((x::size_t) AND NOT 7) = (unat x div 8) * 8"
proof -
  have lt: "unat x < 2 ^ 64"
    using unsigned_less [of x] by simp
  have d: "unat (drop_bit 3 x) = unat x div 8"
    by (simp add: unat_drop_bit_eq drop_bit_eq_div unat_div)
  have "unat (push_bit 3 (drop_bit 3 x)) = (unat (drop_bit 3 x) * 8) mod 2 ^ 64"
    by (simp add: push_bit_eq_mult unat_word_ariths)
  also have "\<dots> = (unat x div 8) * 8"
    using lt by (simp add: d)
  finally show ?thesis
    unfolding and_not_7_shift .
qed

lemma unat_roundUp:
  assumes "unat s \<le> 262144"
  shows "unat (roundUp s) = ((unat s + 7) div 8) * 8"
proof -
  have r: "roundUp s = (s + 7) AND NOT 7"
    by (simp add: roundUp_def ALIGNMENT_def add.commute)
  have "unat (s + 7) = unat s + 7"
    using assms by (simp add: unat_word_ariths)
  then show ?thesis
    unfolding r unat_and_not_7 by simp
qed

lemma unat_getIndex:
  assumes "unat s \<le> 262144"
  shows "unat (getIndex s) = (max (unat s) 8 + 7) div 8 - 1"
proof -
  have m: "unat (max s 8) = max (unat s) 8"
    by (simp add: max_def word_le_nat_alt)
  have "unat (max s 8 + 7) = max (unat s) 8 + 7"
    using assms by (simp add: unat_word_ariths m)
  then have q: "unat ((max s 8 + 7) div 8) = (max (unat s) 8 + 7) div 8"
    by (simp add: unat_div)
  have "1 \<le> (max s 8 + 7) div 8"
    using q by (simp add: word_le_nat_alt)
  then have "unat ((max s 8 + 7) div 8 - 1) = unat ((max s 8 + 7) div 8) - 1"
    by (simp add: unat_sub)
  moreover have "getIndex s = (max s 8 + 7) div 8 - 1"
    by (simp add: getIndex_def ALIGNMENT_def Let_def add.commute)
  ultimately show ?thesis
    unfolding q by simp
qed

lemma unat_FREE_LIST_SIZE: "unat FREE_LIST_SIZE = 32768"
  by (simp add: FREE_LIST_SIZE_def MAX_BYTES_def ALIGNMENT_def)

lemma getIndex_less:
  assumes "unat s \<le> 262144"
  shows "getIndex s < FREE_LIST_SIZE"
proof -
  have "unat (getIndex s) < 32768"
    using assms by (simp add: unat_getIndex)
  then show ?thesis
    by (simp add: word_less_nat_alt unat_FREE_LIST_SIZE)
qed

lemma getIndex_roundUp_less:
  assumes "unat s \<le> 262144"
  shows "getIndex (roundUp s) < FREE_LIST_SIZE"
proof -
  have "unat (roundUp s) \<le> 262144"
    using assms by (simp add: unat_roundUp)
  then show ?thesis
    by (rule getIndex_less)
qed

lemma MAX_BYTES_bound: "s \<le> MAX_BYTES \<Longrightarrow> unat s \<le> 262144"
  by (simp add: word_le_nat_alt MAX_BYTES_def)

lemma unat_class_size:
  assumes "index < FREE_LIST_SIZE"
  shows "unat ((index + 1) * ALIGNMENT) = (unat index + 1) * 8"
proof -
  have i: "unat index < 32768"
    using assms by (simp add: word_less_nat_alt unat_FREE_LIST_SIZE)
  then have "unat (index + 1) = unat index + 1"
    by (simp add: unat_word_ariths)
  then show ?thesis
    using i by (simp add: ALIGNMENT_def unat_word_ariths)
qed

section \<open>The batch count\<close>

lemma unat_baseNum: "unat (baseNum sz) = spec_base (unat sz)"
  by (simp add: baseNum_def spec_base_def word_le_nat_alt)

lemma unat_max: "unat (max a b) = max (unat a) (unat (b::size_t))"
  by (simp add: max_def word_le_nat_alt)

lemma unat_min: "unat (min a b) = min (unat a) (unat (b::size_t))"
  by (simp add: min_def word_le_nat_alt)

lemma getBatchNum_spec:
  assumes "sz \<noteq> 0"
  shows "\<exists>b. getBatchNum sz = Inr b \<and> unat b = spec_compute_batch (unat sz)"
proof -
  have q: "unat (MAX_BATCH_SIZE div sz) = 4096 div unat sz"
    by (simp add: MAX_BATCH_SIZE_def unat_div)
  have b1: "1 \<le> spec_base (unat sz)"
    by (simp add: spec_base_def)
  have "unat (max 1 (min (baseNum sz) (max 1 (MAX_BATCH_SIZE div sz))))
        = max 1 (min (spec_base (unat sz)) (max 1 (4096 div unat sz)))"
    by (simp add: unat_max unat_min q unat_baseNum)
  also have "\<dots> = max 1 (min (spec_base (unat sz)) (4096 div unat sz))"
    using b1 by (simp add: max_def min_def)
  finally show ?thesis
    using assms
    by (simp add: getBatchNum_def Let_def spec_compute_batch_def CENTRAL_BATCH_MAX_BYTES_def)
qed

text \<open>
  Claim C6. For every size class \<open>i\<close>, with \<open>blockSize = (i + 1) * ALIGNMENT\<close>, the
  batch count that \<^verbatim>\<open>getBatchNum\<close> computes for the refill from the central cache is
  \<open>max(1, min(base, 4096 / blockSize))\<close> with the base batch of the table: the code's
  extra \<open>max(1, \<dots>)\<close> around the quotient does not change the value.
\<close>

theorem C6_batch_count:
  assumes "i < FREE_LIST_SIZE" and "blockSize = (i + 1) * ALIGNMENT"
  shows "\<exists>b. getBatchNum blockSize = Inr b \<and>
             unat b = spec_compute_batch (unat blockSize) \<and>
             unat blockSize = (unat i + 1) * 8"
proof -
  have u: "unat blockSize = (unat i + 1) * 8"
    using assms by (simp add: unat_class_size)
  then have "unat blockSize \<noteq> 0"
    by simp
  then have "blockSize \<noteq> 0"
    by (metis unat_0)
  then show ?thesis
    using getBatchNum_spec [of blockSize] u by blast
qed

theorem C6_batch_count_witness:
  "(15::size_t) < FREE_LIST_SIZE \<and>
   (\<exists>b. getBatchNum ((15 + 1) * ALIGNMENT) = Inr b \<and>
        unat b = spec_compute_batch (unat ((15 + 1) * ALIGNMENT)) \<and>
        unat ((15 + 1) * ALIGNMENT) = (unat (15::size_t) + 1) * 8)"
  using C6_batch_count [of 15 "(15 + 1) * ALIGNMENT"]
  by (simp add: FREE_LIST_SIZE_def MAX_BYTES_def ALIGNMENT_def)

section \<open>Rejected requests\<close>

text \<open>
  Claim C8. \<^verbatim>\<open>fetchRange\<close> returns \<^verbatim>\<open>nullptr\<close> and leaves the whole state, and so every
  central free list, as it was when \<open>index \<ge> FREE_LIST_SIZE\<close> or \<open>batchNum = 0\<close>;
  \<^verbatim>\<open>returnRange\<close> leaves the state as it was when the head block is null or
  \<open>index \<ge> FREE_LIST_SIZE\<close>.
\<close>

theorem C8_reject:
  "(FREE_LIST_SIZE \<le> index \<or> batchNum = 0 \<longrightarrow>
      fetchRange st index batchNum env = Inr (0, st)) \<and>
   (start = 0 \<or> FREE_LIST_SIZE \<le> index' \<longrightarrow> returnRange st start sz index' = st)"
  by (simp add: fetchRange_def returnRange_def)

theorem C8_reject_witness:
  "(FREE_LIST_SIZE \<le> (32768::size_t) \<or> (3::size_t) = 0) \<and>
   fetchRange (init_allocator (\<lambda>a. 0)) 32768 3 (os_at 65536)
     = Inr (0, init_allocator (\<lambda>a. 0)) \<and>
   ((0::nat) = 0 \<or> FREE_LIST_SIZE \<le> (5::size_t)) \<and>
   returnRange (init_allocator (\<lambda>a. 0)) 0 16 5 = init_allocator (\<lambda>a. 0)"
  using C8_reject [of 32768 3 "init_allocator (\<lambda>a. 0)" "os_at 65536" 0 5 16]
  by (simp add: FREE_LIST_SIZE_def MAX_BYTES_def ALIGNMENT_def)

text \<open>
  Claim C9. \<^verbatim>\<open>deallocateSpan\<close> called with an address that has no descriptor in
  \<^verbatim>\<open>spanMap_\<close> returns and leaves the page cache (\<^verbatim>\<open>freeSpans_\<close>, \<^verbatim>\<open>spanMap_\<close> and every
  descriptor) unchanged.
\<close>

theorem C9_unknown_address:
  "spanMap pc ptr = None \<Longrightarrow> deallocateSpan pc ptr n = Some (Inr pc)"
  by (simp add: deallocateSpan_def)

theorem C9_unknown_address_witness:
  "spanMap init_pageCache 4096 = None \<and>
   deallocateSpan init_pageCache 4096 2 = Some (Inr init_pageCache)"
  using C9_unknown_address [of init_pageCache 4096 2]
  by (simp add: init_pageCache_def)

section \<open>The size-class index stays inside the arrays\<close>

lemma deref_error: "deref ss p = Inl e \<Longrightarrow> e = NullDeref \<or> e = DanglingDeref"
  by (auto simp: deref_def split: if_splits option.splits)

lemma allocateSpan_error:
  "allocateSpan pc m n env = Inl e \<Longrightarrow> e = NullDeref \<or> e = DanglingDeref"
  by (auto simp: allocateSpan_def Let_def split: option.splits sum.splits prod.splits if_splits
      dest: deref_error)

lemma fetchRange_error:
  "fetchRange st index batchNum env = Inl e \<Longrightarrow> e = NullDeref \<or> e = DanglingDeref"
  by (auto simp: fetchRange_def fetchFromPageCache_def Let_def
      split: option.splits sum.splits prod.splits if_splits dest: allocateSpan_error)

lemma fetchFromCentralCache_error:
  "fetchFromCentralCache st index env = Inl e \<Longrightarrow> e \<noteq> OutOfBounds"
  by (auto simp: fetchFromCentralCache_def getBatchNum_def Let_def
      split: sum.splits prod.splits if_splits dest: fetchRange_error)

lemma fetchFromCentralCache_in_bounds:
  "fetchFromCentralCache st index env \<noteq> Inl OutOfBounds"
  using fetchFromCentralCache_error by blast

lemma returnToCentralCache_in_bounds:
  "getIndex sz < FREE_LIST_SIZE \<Longrightarrow> returnToCentralCache st start sz \<noteq> Inl OutOfBounds"
  by (simp add: returnToCentralCache_def Let_def split: prod.splits)

text \<open>
  Claim C10. For every request size \<open>s\<close> with \<open>1 \<le> s \<le> MAX_BYTES\<close> the index
  \<open>getIndex (roundUp s)\<close> of \<^verbatim>\<open>allocate\<close> and the index \<open>getIndex s\<close> of \<^verbatim>\<open>deallocate\<close> are
  below \<^verbatim>\<open>FREE_LIST_SIZE\<close>, so neither path reads or writes an array outside its bounds.
\<close>

theorem C10_index_in_bounds:
  assumes "1 \<le> s" and "s \<le> MAX_BYTES"
  shows "getIndex (roundUp s) < FREE_LIST_SIZE \<and> getIndex s < FREE_LIST_SIZE \<and>
         allocate st s env \<noteq> Inl OutOfBounds \<and> deallocate st ptr s \<noteq> Inl OutOfBounds"
proof -
  have u: "unat s \<le> 262144"
    using assms(2) by (rule MAX_BYTES_bound)
  have a: "getIndex (roundUp s) < FREE_LIST_SIZE"
    using u by (rule getIndex_roundUp_less)
  have d: "getIndex s < FREE_LIST_SIZE"
    using u by (rule getIndex_less)
  have nz: "s \<noteq> 0"
    using assms(1) by auto
  have "allocate st s env \<noteq> Inl OutOfBounds"
    using a nz by (simp add: allocate_def Let_def fetchFromCentralCache_in_bounds)
  moreover have "deallocate st ptr s \<noteq> Inl OutOfBounds"
    using d by (simp add: deallocate_def Let_def returnToCentralCache_in_bounds)
  ultimately show ?thesis
    using a d by simp
qed

theorem C10_index_in_bounds_witness:
  "(1::size_t) \<le> 262144 \<and> (262144::size_t) \<le> MAX_BYTES \<and>
   getIndex (roundUp 262144) < FREE_LIST_SIZE \<and> getIndex 262144 < FREE_LIST_SIZE \<and>
   allocate (init_allocator (\<lambda>a. 0)) 262144 (os_at 65536) \<noteq> Inl OutOfBounds \<and>
   deallocate (init_allocator (\<lambda>a. 0)) 65536 262144 \<noteq> Inl OutOfBounds"
  using C10_index_in_bounds [of 262144 "init_allocator (\<lambda>a. 0)" "os_at 65536" 65536]
  by (simp add: MAX_BYTES_def)

section \<open>Splitting a free span\<close>

text \<open>
  Claim C3, evaluated on the page cache that holds one free span of eight pages at
  address 65536 (allocated from the operating system, then returned): \<^verbatim>\<open>allocateSpan(3)\<close>
  returns the low three pages and puts a new descriptor for the remaining five pages at
  the head of \<^verbatim>\<open>freeSpans_[5]\<close>, but \<^verbatim>\<open>spanMap_\<close> has no entry for that descriptor's address.
\<close>

theorem C3_remainder_not_in_spanMap:
  "(case allocateSpan init_pageCache (\<lambda>a. 0) 8 (os_at 65536) of
      Inr (p1, pc1, m1) \<Rightarrow>
        (case deallocateSpan pc1 p1 8 of
           Some (Inr pc2) \<Rightarrow>
             (case allocateSpan pc2 m1 3 (os_at 65536) of
                Inr (p3, pc3, m3) \<Rightarrow>
                  p1 = 65536 \<and> p3 = 65536 \<and>
                  map_of (freeSpans pc2) 8 = Some 1 \<and>
                  spans pc2 1 = Some \<lparr>pageAddr = 65536, numPages = 8, nxt = 0\<rparr> \<and>
                  freeSpans pc3 = [(5, 2)] \<and>
                  spans pc3 2 = Some \<lparr>pageAddr = 65536 + 3 * 4096, numPages = 5, nxt = 0\<rparr> \<and>
                  spans pc3 1 = Some \<lparr>pageAddr = 65536, numPages = 3, nxt = 0\<rparr> \<and>
                  spanMap pc3 65536 = Some 1 \<and>
                  spanMap pc3 (65536 + 3 * 4096) = None
              | Inl e \<Rightarrow> False)
         | _ \<Rightarrow> False)
    | Inl e \<Rightarrow> False)"
  by (simp add: allocateSpan_def deallocateSpan_def init_pageCache_def os_at_def systemAlloc_def
      deref_def insert_free_def map_subscript_def PAGE_SIZE_def Let_def)

section \<open>Chains of blocks\<close>

lemma hd0_simps [simp]: "hd0 [] = 0" "hd0 (x # xs) = x"
  by (simp_all add: hd0_def)

lemma chain_hd0: "chain m h xs \<Longrightarrow> h = hd0 xs"
  by (cases xs) auto

lemma chain_nonzero: "chain m h xs \<Longrightarrow> 0 \<notin> set xs"
  by (induction xs arbitrary: h) auto

lemma chain_frame: "a \<notin> set xs \<Longrightarrow> chain (m(a := v)) h xs = chain m h xs"
  by (induction xs arbitrary: h) auto

lemma chain_det: "chain m h xs \<Longrightarrow> chain m h ys \<Longrightarrow> xs = ys"
proof (induction xs arbitrary: h ys)
  case Nil
  then show ?case by (cases ys) auto
next
  case (Cons x xs)
  then show ?case by (cases ys) auto
qed

lemma chain_suffix: "chain m h (xs @ ys) \<Longrightarrow> chain m (hd0 ys) ys"
proof (induction xs arbitrary: h)
  case Nil
  then show ?case by (simp add: chain_hd0 [symmetric])
next
  case (Cons x xs)
  then show ?case
    using Cons.IH [of "m x"] by simp
qed

lemma chain_distinct: "chain m h xs \<Longrightarrow> distinct xs"
proof (induction xs arbitrary: h)
  case Nil
  then show ?case by simp
next
  case (Cons x xs)
  have d: "distinct xs"
    using Cons.IH [of "m x"] Cons.prems by simp
  have "x \<notin> set xs"
  proof
    assume "x \<in> set xs"
    then obtain ys zs where s: "xs = ys @ x # zs"
      by (auto simp: in_set_conv_decomp)
    have "chain m x (x # xs)"
      using Cons.prems by simp
    moreover have "chain m x (x # zs)"
      using Cons.prems s chain_suffix [of m "m x" ys "x # zs"] by simp
    ultimately have "x # xs = x # zs"
      by (rule chain_det)
    then show False
      using s by simp
  qed
  then show ?case
    using d by simp
qed

lemma chain_prefix_cut:
  "chain m h (xs @ a # ys) \<Longrightarrow> a \<notin> set xs \<Longrightarrow> chain (m(a := 0)) h (xs @ [a])"
  by (induction xs arbitrary: h) auto

lemma chain_cut:
  assumes "chain m h (xs @ a # ys)"
  shows "chain (m(a := 0)) h (xs @ [a])" and "chain (m(a := 0)) (m a) ys"
proof -
  have dist: "distinct (xs @ a # ys)"
    using assms by (rule chain_distinct)
  show "chain (m(a := 0)) h (xs @ [a])"
    using assms dist by (simp add: chain_prefix_cut)
  have "chain m a (a # ys)"
    using chain_suffix [OF assms] by simp
  then show "chain (m(a := 0)) (m a) ys"
    using dist by (simp add: chain_frame)
qed

lemma take_blocks_chain:
  assumes "chain m cur xs"
  shows "take_blocks m cur prev count b =
           (let k = min (b - count) (length xs)
            in (hd0 (drop k xs), if k = 0 then prev else xs ! (k - 1)))"
  using assms
proof (induction m cur prev count b arbitrary: xs rule: take_blocks.induct)
  case (1 m current prev count batchNum)
  show ?case
  proof (cases "current \<noteq> 0 \<and> count < batchNum")
    case True
    then obtain x xs' where xs: "xs = x # xs'" "current = x" and c: "chain m (m x) xs'"
      using "1.prems" by (cases xs) auto
    have "take_blocks m (m current) current (Suc count) batchNum =
            (let k = min (batchNum - Suc count) (length xs')
             in (hd0 (drop k xs'), if k = 0 then current else xs' ! (k - 1)))"
      using "1.IH" [OF True, of xs'] c xs by simp
    moreover have "min (batchNum - count) (length xs) = Suc (min (batchNum - Suc count) (length xs'))"
      using True xs by auto
    ultimately show ?thesis
      using True xs take_blocks.simps [of m current prev count batchNum]
      by (auto simp: Let_def nth_Cons')
  next
    case False
    then have "take_blocks m current prev count batchNum = (current, prev)"
      using take_blocks.simps [of m current prev count batchNum] by auto
    moreover have "min (batchNum - count) (length xs) = 0"
      using False "1.prems" by (cases xs) auto
    ultimately show ?thesis
      using "1.prems" by (simp add: Let_def chain_hd0)
  qed
qed


lemma link_blocks_other:
  "(\<And>j. i \<le> j \<Longrightarrow> j < n \<Longrightarrow> a \<noteq> start + (j - 1) * sz) \<Longrightarrow> link_blocks m start sz i n a = m a"
proof (induction m start sz i n rule: link_blocks.induct)
  case (1 m start sz i n)
  show ?case
  proof (cases "i < n")
    case True
    have "link_blocks (m(start + (i - 1) * sz := start + i * sz)) start sz (Suc i) n a
            = (m(start + (i - 1) * sz := start + i * sz)) a"
      using True "1.prems" by (intro "1.IH") auto
    also have "\<dots> = m a"
      using "1.prems" [of i] True by simp
    finally show ?thesis
      using True by (subst link_blocks.simps) simp
  next
    case False
    then show ?thesis
      by (subst link_blocks.simps) simp
  qed
qed

lemma link_blocks_at:
  "0 < sz \<Longrightarrow> 1 \<le> i \<Longrightarrow> i \<le> j \<Longrightarrow> j < n \<Longrightarrow>
     link_blocks m start sz i n (start + (j - 1) * sz) = start + j * sz"
proof (induction m start sz i n rule: link_blocks.induct)
  case (1 m start sz i n)
  have lt: "i < n"
    using "1.prems" by simp
  have step: "link_blocks m start sz i n =
                link_blocks (m(start + (i - 1) * sz := start + i * sz)) start sz (Suc i) n"
    using lt by (subst link_blocks.simps) simp
  show ?case
  proof (cases "j = i")
    case True
    have "link_blocks (m(start + (i - 1) * sz := start + i * sz)) start sz (Suc i) n
            (start + (i - 1) * sz) = (m(start + (i - 1) * sz := start + i * sz)) (start + (i - 1) * sz)"
    proof (rule link_blocks_other)
      fix k assume "Suc i \<le> k" "k < n"
      then have "i - 1 < k - 1"
        using "1.prems" by simp
      then show "start + (i - 1) * sz \<noteq> start + (k - 1) * sz"
        using "1.prems"(1) by simp
    qed
    then show ?thesis
      using True step by simp
  next
    case False
    then have "link_blocks (m(start + (i - 1) * sz := start + i * sz)) start sz (Suc i) n
                 (start + (j - 1) * sz) = start + j * sz"
      using "1.prems" lt by (intro "1.IH") auto
    then show ?thesis
      using step by simp
  qed
qed

lemma blocks_Cons: "i < n \<Longrightarrow> blocks start sz i n = (start + i * sz) # blocks start sz (Suc i) n"
  by (simp add: blocks_def upt_conv_Cons)

lemma blocks_empty [simp]: "n \<le> i \<Longrightarrow> blocks start sz i n = []"
  by (simp add: blocks_def)

lemma set_blocks: "set (blocks start sz i n) = {start + j * sz | j. i \<le> j \<and> j < n}"
  by (auto simp: blocks_def)

lemma chain_blocks:
  assumes "0 < start"
    and "\<And>j. i \<le> j \<Longrightarrow> Suc j < n \<Longrightarrow> m (start + j * sz) = start + Suc j * sz"
    and "m (start + (n - 1) * sz) = 0"
    and "i < n"
  shows "chain m (start + i * sz) (blocks start sz i n)"
  using assms(2,4)
proof (induction "n - i" arbitrary: i)
  case 0
  then show ?case by simp
next
  case (Suc d)
  show ?case
  proof (cases "Suc i < n")
    case True
    have "chain m (start + Suc i * sz) (blocks start sz (Suc i) n)"
      using Suc.hyps(2) Suc.prems True by (intro Suc.hyps(1)) auto
    moreover have "m (start + i * sz) = start + Suc i * sz"
      using Suc.prems(1) [of i] True by simp
    ultimately show ?thesis
      using Suc.prems(2) assms(1) by (simp add: blocks_Cons)
  next
    case False
    then have "n - 1 = i" "Suc i = n"
      using Suc.prems(2) by auto
    then show ?thesis
      using assms(1,3) Suc.prems(2) by (simp add: blocks_Cons)
  qed
qed

lemma link_chain_other:
  assumes "1 \<le> i" and "i \<le> n" and "a \<notin> set (blocks start sz (i - 1) n)"
  shows "link_chain m start sz i n a = m a"
proof -
  have mem: "\<And>j. i - 1 \<le> j \<Longrightarrow> j < n \<Longrightarrow> start + j * sz \<in> set (blocks start sz (i - 1) n)"
    unfolding set_blocks by blast
  have "start + (n - 1) * sz \<in> set (blocks start sz (i - 1) n)"
    using assms(1,2) by (intro mem) auto
  then have n: "a \<noteq> start + (n - 1) * sz"
    using assms(3) by auto
  have "link_blocks m start sz i n a = m a"
  proof (rule link_blocks_other)
    fix j assume "i \<le> j" "j < n"
    then have "start + (j - 1) * sz \<in> set (blocks start sz (i - 1) n)"
      by (intro mem) auto
    then show "a \<noteq> start + (j - 1) * sz"
      using assms(3) by auto
  qed
  then show ?thesis
    using n by (simp add: link_chain_def)
qed

lemma link_chain_chain:
  assumes "0 < start" and "0 < sz" and "1 \<le> i" and "i \<le> n"
  shows "chain (link_chain m start sz i n) (start + (i - 1) * sz) (blocks start sz (i - 1) n)"
proof (rule chain_blocks)
  show "0 < start" by (rule assms(1))
  show "i - 1 < n" using assms by simp
  show "link_chain m start sz i n (start + (n - 1) * sz) = 0"
    by (simp add: link_chain_def)
next
  fix j assume j: "i - 1 \<le> j" "Suc j < n"
  have "link_blocks m start sz i n (start + (Suc j - 1) * sz) = start + Suc j * sz"
    using assms j by (intro link_blocks_at) auto
  moreover have "start + j * sz \<noteq> start + (n - 1) * sz"
    using j assms(2) by simp
  ultimately show "link_chain m start sz i n (start + j * sz) = start + Suc j * sz"
    by (simp add: link_chain_def)
qed

section \<open>What fetchRange hands out\<close>

lemma chain_cong_set:
  "(\<And>x. x \<in> set xs \<Longrightarrow> m' x = m x) \<Longrightarrow> chain m h xs \<Longrightarrow> chain m' h xs"
  by (induction xs arbitrary: h) auto

lemma fetchRange_existing:
  assumes "index < FREE_LIST_SIZE" and "batchNum \<noteq> 0"
    and "chain (mem st) (centralFreeList st (unat index)) ys" and "ys \<noteq> []"
    and "k = min (unat batchNum) (length ys)"
  shows "fetchRange st index batchNum env =
           Inr (hd0 ys, st\<lparr>mem := (mem st)(ys ! (k - 1) := 0),
                          centralFreeList := (centralFreeList st)(unat index := hd0 (drop k ys))\<rparr>)"
    and "chain ((mem st)(ys ! (k - 1) := 0)) (hd0 ys) (take k ys)"
    and "chain ((mem st)(ys ! (k - 1) := 0)) (hd0 (drop k ys)) (drop k ys)"
proof -
  have h: "centralFreeList st (unat index) = hd0 ys"
    using assms(3) by (rule chain_hd0)
  have h0: "hd0 ys \<noteq> 0"
    using assms(3,4) by (cases ys) auto
  have b: "0 < unat batchNum"
    using assms(2) by (simp add: unat_gt_0)
  have k: "0 < k" "k \<le> length ys"
    using b assms(4,5) by auto
  have nz: "ys ! (k - 1) \<noteq> 0"
    using chain_nonzero [OF assms(3)] k nth_mem [of "k - 1" ys] by (metis diff_less less_le_trans zero_less_one)
  have tb: "take_blocks (mem st) (hd0 ys) 0 0 (unat batchNum) = (hd0 (drop k ys), ys ! (k - 1))"
    using take_blocks_chain [of "mem st" "hd0 ys" ys 0 0 "unat batchNum"] assms(3) h k assms(5)
    by (simp add: Let_def)
  show "fetchRange st index batchNum env =
           Inr (hd0 ys, st\<lparr>mem := (mem st)(ys ! (k - 1) := 0),
                          centralFreeList := (centralFreeList st)(unat index := hd0 (drop k ys))\<rparr>)"
    using assms(1,2) h h0 tb nz by (simp add: fetchRange_def Let_def)
  have split: "ys = take (k - 1) ys @ ys ! (k - 1) # drop k ys"
    using k id_take_nth_drop [of "k - 1" ys] by simp
  have c: "chain (mem st) (hd0 ys) (take (k - 1) ys @ ys ! (k - 1) # drop k ys)"
    using assms(3) h split by simp
  have t: "take k ys = take (k - 1) ys @ [ys ! (k - 1)]"
    using k take_Suc_conv_app_nth [of "k - 1" ys] by simp
  show "chain ((mem st)(ys ! (k - 1) := 0)) (hd0 ys) (take k ys)"
    using chain_cut(1) [OF c] t by simp
  have "chain ((mem st)(ys ! (k - 1) := 0)) (mem st (ys ! (k - 1))) (drop k ys)"
    using chain_cut(2) [OF c] .
  then show "chain ((mem st)(ys ! (k - 1) := 0)) (hd0 (drop k ys)) (drop k ys)"
    using chain_hd0 by fastforce
qed

lemma unat_totalBlocks:
  "unat (totalBlocks sz) = 32768 div unat sz"
  by (simp add: totalBlocks_def SPAN_PAGES_def PAGE_SIZE_def unat_div)

lemma fetchFromPageCache_frame:
  assumes "fetchFromPageCache st sz env = Inr (start, st1)"
  shows "freeList st1 = freeList st" and "freeListSize st1 = freeListSize st"
    and "centralFreeList st1 = centralFreeList st"
  using assms by (auto simp: fetchFromPageCache_def split: sum.splits prod.splits)

lemma fetchRange_fresh:
  assumes "index < FREE_LIST_SIZE" and "batchNum \<noteq> 0"
    and "centralFreeList st (unat index) = 0"
    and "fetchFromPageCache st ((index + 1) * ALIGNMENT) env = Inr (start, st1)"
    and "start \<noteq> 0"
    and "s = (unat index + 1) * 8"
    and "t = 32768 div s"
    and "a = min (unat batchNum) t"
  shows "\<exists>st'. fetchRange st index batchNum env = Inr (start, st') \<and>
           freeList st' = freeList st \<and> freeListSize st' = freeListSize st \<and>
           pageCache st' = pageCache st1 \<and>
           centralFreeList st' =
             (centralFreeList st)(unat index := if a < t then start + a * s else 0) \<and>
           (2 \<le> a \<longrightarrow> chain (mem st') start (blocks start s 0 a)) \<and>
           (a < t \<longrightarrow> chain (mem st') (start + a * s) (blocks start s a t)) \<and>
           (\<forall>x. x \<notin> set (blocks start s 0 t) \<longrightarrow> mem st' x = mem st1 x) \<and>
           (a \<le> 1 \<longrightarrow> mem st' start = mem st1 start)"
proof -
  define sz where "sz = (index + 1) * ALIGNMENT"
  define m1 where "m1 = (if 1 < a then link_chain (mem st1) start s 1 a else mem st1)"
  define m2 where "m2 = (if a < t then link_chain m1 start s (a + 1) t else m1)"
  have us: "unat sz = s"
    using assms(1,6) by (simp add: sz_def unat_class_size)
  have ut: "unat (totalBlocks sz) = t"
    using assms(7) us by (simp add: unat_totalBlocks)
  have ua: "unat (min batchNum (totalBlocks sz)) = a"
    using assms(8) ut by (simp add: unat_min)
  have s0: "0 < s"
    using assms(6) by simp
  have st0: "0 < start"
    using assms(5) by simp
  have at: "a \<le> t"
    using assms(8) by simp
  have c1: "(1 < min batchNum (totalBlocks sz)) = (1 < a)"
    using ua by (simp add: word_less_nat_alt)
  have c2: "(min batchNum (totalBlocks sz) < totalBlocks sz) = (a < t)"
    using ua ut by (simp add: word_less_nat_alt)
  have fr: "freeList st1 = freeList st" "freeListSize st1 = freeListSize st"
    "centralFreeList st1 = centralFreeList st"
    using fetchFromPageCache_frame [OF assms(4)] by simp_all
  have res: "fetchRange st index batchNum env =
               Inr (start, if a < t
                           then st1\<lparr>mem := m2,
                                   centralFreeList := (centralFreeList st1)(unat index := start + a * s)\<rparr>
                           else st1\<lparr>mem := m1\<rparr>)"
    using assms(1,2,3,4,5) us ut ua c1 c2
    by (simp add: fetchRange_def Let_def sz_def [symmetric] m1_def m2_def)
  have m2_else: "\<not> a < t \<Longrightarrow> m2 = m1"
    by (simp add: m2_def)
  have p1: "chain m2 start (blocks start s 0 a)" if "2 \<le> a"
  proof -
    have "chain (link_chain (mem st1) start s 1 a) (start + (1 - 1) * s) (blocks start s (1 - 1) a)"
      using that st0 s0 by (intro link_chain_chain) auto
    then have c: "chain m1 start (blocks start s 0 a)"
      using that by (simp add: m1_def)
    show ?thesis
    proof (cases "a < t")
      case True
      have "\<And>x. x \<in> set (blocks start s 0 a) \<Longrightarrow> link_chain m1 start s (a + 1) t x = m1 x"
      proof (rule link_chain_other)
        fix x assume "x \<in> set (blocks start s 0 a)"
        then show "x \<notin> set (blocks start s (a + 1 - 1) t)"
          using s0 by (auto simp: set_blocks)
      qed (use True in auto)
      then have "\<And>x. x \<in> set (blocks start s 0 a) \<Longrightarrow> m2 x = m1 x"
        using True by (simp add: m2_def)
      then show ?thesis
        using c chain_cong_set by blast
    next
      case False
      then show ?thesis using c by (simp add: m2_def)
    qed
  qed
  have p2: "chain m2 (start + a * s) (blocks start s a t)" if "a < t"
  proof -
    have "chain (link_chain m1 start s (a + 1) t) (start + (a + 1 - 1) * s) (blocks start s (a + 1 - 1) t)"
      using that st0 s0 by (intro link_chain_chain) auto
    then show ?thesis
      using that by (simp add: m2_def)
  qed
  have p3: "m2 x = mem st1 x" if "x \<notin> set (blocks start s 0 t)" for x
  proof -
    have "m1 x = mem st1 x"
    proof (cases "1 < a")
      case True
      have "x \<notin> set (blocks start s (1 - 1) a)"
        using that at by (auto simp: set_blocks)
      then show ?thesis
        using True by (simp add: m1_def link_chain_other)
    next
      case False
      then show ?thesis by (simp add: m1_def)
    qed
    moreover have "m2 x = m1 x"
    proof (cases "a < t")
      case True
      have "x \<notin> set (blocks start s (a + 1 - 1) t)"
        using that by (auto simp: set_blocks)
      then show ?thesis
        using True by (simp add: m2_def link_chain_other)
    next
      case False
      then show ?thesis by (simp add: m2_def)
    qed
    ultimately show ?thesis by simp
  qed
  have p4: "m2 start = mem st1 start" if "a \<le> 1"
  proof -
    have m1: "m1 = mem st1"
      using that by (simp add: m1_def)
    show ?thesis
    proof (cases "a < t")
      case True
      have "0 < unat batchNum"
        using assms(2) by (simp add: unat_gt_0)
      then have a1: "a = 1"
        using that True assms(8) by (auto simp: min_def split: if_splits)
      have "start \<notin> set (blocks start s (a + 1 - 1) t)"
        using s0 a1 by (auto simp: set_blocks)
      then show ?thesis
        using True m1 by (simp add: m2_def link_chain_other)
    next
      case False
      then show ?thesis using m1 by (simp add: m2_def)
    qed
  qed
  show ?thesis
  proof (cases "a < t")
    case True
    then show ?thesis
      using res fr p1 p2 p3 p4 by simp
  next
    case False
    have "m1 = m2" using False by (simp add: m2_def)
    moreover have "(centralFreeList st)(unat index := 0) = centralFreeList st"
      using assms(3) by auto
    ultimately show ?thesis
      using False res fr p1 p2 p3 p4 by simp
  qed
qed


lemma fetchFromPageCache_os:
  assumes "lower_bound (freeSpans (pageCache st)) (requestedPages sz) = None"
    and "mmap env (unat (requestedPages sz * PAGE_SIZE)) = Some start"
    and "start \<noteq> 0"
  shows "fetchFromPageCache st sz env =
           Inr (start,
                st\<lparr>mem := memset_zero (mem st) start (unat (requestedPages sz * PAGE_SIZE)),
                   pageCache := (pageCache st)
                     \<lparr>spanMap := (spanMap (pageCache st))(start \<mapsto> nextSpan (pageCache st)),
                      spans := (spans (pageCache st))
                        (nextSpan (pageCache st) \<mapsto>
                           \<lparr>pageAddr = start, numPages = requestedPages sz, nxt = 0\<rparr>),
                      nextSpan := Suc (nextSpan (pageCache st))\<rparr>\<rparr>)"
  using assms by (simp add: fetchFromPageCache_def allocateSpan_def systemAlloc_def Let_def)

lemma requestedPages_small:
  "unat sz \<le> 32768 \<Longrightarrow> requestedPages sz = 8"
  by (simp add: requestedPages_def SPAN_PAGES_def PAGE_SIZE_def word_le_nat_alt)

section \<open>Size classes and the spans they are carved from\<close>

text \<open>
  For the size class \<open>i\<close>: \<open>csize i\<close> is its block size, \<open>rsize i\<close> the bytes of the span
  that \<^verbatim>\<open>fetchFromPageCache\<close> asks for, and \<open>nblocks i\<close> the number of blocks of that size
  in those bytes.
\<close>

lemma csize_pos [simp]: "0 < csize i"
  by (simp add: csize_def)

lemma csize_dvd [simp]: "8 dvd csize i"
  by (simp add: csize_def)

lemma nblocks_pos [simp]: "0 < nblocks i"
  by (simp add: nblocks_def)

lemma of_nat_csize:
  "index < FREE_LIST_SIZE \<Longrightarrow> of_nat (csize (unat index)) = (index + 1) * ALIGNMENT"
  by (simp add: csize_def ALIGNMENT_def)

lemma unat_class_csize:
  "index < FREE_LIST_SIZE \<Longrightarrow> unat ((index + 1) * ALIGNMENT) = csize (unat index)"
  by (simp add: unat_class_size csize_def)

lemma index_bound: "index < FREE_LIST_SIZE \<Longrightarrow> unat index < 32768"
  by (simp add: word_less_nat_alt unat_FREE_LIST_SIZE)

lemma rsize_eq:
  assumes "i < 32768"
  shows "rsize i = (if csize i \<le> 32768 then 32768 else ((csize i + 4095) div 4096) * 4096)"
proof -
  have c: "csize i \<le> 262144"
    using assms by (simp add: csize_def)
  then have u: "unat (of_nat (csize i) :: size_t) = csize i"
    by (simp add: unat_of_nat)
  show ?thesis
  proof (cases "csize i \<le> 32768")
    case True
    then have "(of_nat (csize i) :: size_t) \<le> SPAN_PAGES * PAGE_SIZE"
      using u by (simp add: word_le_nat_alt SPAN_PAGES_def PAGE_SIZE_def)
    then show ?thesis
      using True by (simp add: rsize_def requestedPages_def Let_def SPAN_PAGES_def PAGE_SIZE_def)
  next
    case False
    then have n: "\<not> (of_nat (csize i) :: size_t) \<le> SPAN_PAGES * PAGE_SIZE"
      using u by (simp add: word_le_nat_alt SPAN_PAGES_def PAGE_SIZE_def)
    have a: "unat (of_nat (csize i) + 4095 :: size_t) = csize i + 4095"
      using c u by (simp add: unat_word_ariths)
    have d: "unat ((of_nat (csize i) + 4095 :: size_t) div 4096) = (csize i + 4095) div 4096"
      using a by (simp add: unat_div)
    have "(csize i + 4095) div 4096 \<le> 65"
      using c by simp
    then have "unat ((of_nat (csize i) + 4095 :: size_t) div 4096 * 4096) = (csize i + 4095) div 4096 * 4096"
      using d by (simp add: unat_word_ariths)
    then show ?thesis
      using False n
      by (simp add: rsize_def requestedPages_def Let_def PAGE_SIZE_def add.commute)
  qed
qed

lemma nblocks_fit:
  assumes "i < 32768"
  shows "nblocks i * csize i \<le> rsize i"
proof (cases "csize i \<le> 32768")
  case True
  then have "1 \<le> 32768 div csize i"
    by (simp add: Suc_leI div_greater_zero_iff)
  then have "nblocks i = 32768 div csize i"
    by (simp add: nblocks_def)
  then show ?thesis
    using True assms by (simp add: rsize_eq)
next
  case False
  then have "nblocks i = 1"
    by (simp add: nblocks_def)
  moreover have "csize i \<le> (csize i + 4095) div 4096 * 4096"
  proof -
    have "(csize i + 4095) mod 4096 < 4096"
      by simp
    moreover have "(csize i + 4095) div 4096 * 4096 + (csize i + 4095) mod 4096 = csize i + 4095"
      by (rule div_mult_mod_eq)
    ultimately show ?thesis
      by linarith
  qed
  ultimately show ?thesis
    using False assms by (simp add: rsize_eq)
qed

lemma grid_iff: "x \<in> grid s i \<longleftrightarrow> (\<exists>j < nblocks i. x = s + j * csize i)"
  by (auto simp: grid_def set_blocks)

lemma grid_start: "s \<in> grid s i"
  by (auto simp: grid_iff intro: exI [of _ 0])

lemma grid_bounds:
  assumes "i < 32768" and "x \<in> grid s i"
  shows "s \<le> x" and "x + csize i \<le> s + rsize i"
proof -
  obtain j where j: "j < nblocks i" "x = s + j * csize i"
    using assms(2) by (auto simp: grid_iff)
  show "s \<le> x"
    using j by simp
  have "Suc j * csize i \<le> nblocks i * csize i"
    using j(1) by (intro mult_le_mono1) simp
  then show "x + csize i \<le> s + rsize i"
    using nblocks_fit [OF assms(1)] j(2) by simp
qed

lemma grid_inj:
  assumes "x \<in> grid s i" and "y \<in> grid s i" and "x \<le> y" and "y < x + csize i"
  shows "x = y"
proof -
  obtain j where j: "x = s + j * csize i"
    using assms(1) by (auto simp: grid_iff)
  obtain k where k: "y = s + k * csize i"
    using assms(2) by (auto simp: grid_iff)
  have "j * csize i \<le> k * csize i" "k * csize i < Suc j * csize i"
    using assms(3,4) j k by simp_all
  then have "j \<le> k" "k < Suc j"
    by (simp, metis mult_less_cancel2)
  then show ?thesis
    using j k by simp
qed

lemma grid_aligned: "8 dvd s \<Longrightarrow> x \<in> grid s i \<Longrightarrow> 8 dvd x"
  by (auto simp: grid_iff)

lemma getIndex_roundUp:
  assumes "sz \<le> MAX_BYTES"
  shows "getIndex (roundUp sz) = getIndex sz"
proof -
  have u: "unat sz \<le> 262144"
    using assms by (rule MAX_BYTES_bound)
  have r: "unat (roundUp sz) = (unat sz + 7) div 8 * 8"
    using u by (rule unat_roundUp)
  then have "unat (roundUp sz) \<le> 262144"
    using u by simp
  then have "unat (getIndex (roundUp sz)) = (max (unat (roundUp sz)) 8 + 7) div 8 - 1"
    by (rule unat_getIndex)
  also have "\<dots> = (max (unat sz) 8 + 7) div 8 - 1"
    unfolding r by (simp add: max_def)
  also have "\<dots> = unat (getIndex sz)"
    using u by (simp add: unat_getIndex)
  finally show ?thesis
    by (simp add: word_unat_eq_iff)
qed

lemma size_le_csize:
  assumes "sz \<le> MAX_BYTES"
  shows "unat sz \<le> csize (unat (getIndex sz))"
proof -
  have u: "unat sz \<le> 262144"
    using assms by (rule MAX_BYTES_bound)
  have "unat (getIndex sz) = (max (unat sz) 8 + 7) div 8 - 1"
    using u by (rule unat_getIndex)
  then show ?thesis
    by (simp add: csize_def max_def) presburger
qed

lemma getIndex_bound: "sz \<le> MAX_BYTES \<Longrightarrow> unat (getIndex sz) < 32768"
  by (intro index_bound getIndex_less MAX_BYTES_bound)

lemma blocks_in_grid:
  "n \<le> nblocks i \<Longrightarrow> x \<in> set (blocks s (csize i) k n) \<Longrightarrow> x \<in> grid s i"
proof -
  assume n: "n \<le> nblocks i" and "x \<in> set (blocks s (csize i) k n)"
  then obtain j where "j < n" "x = s + j * csize i"
    by (auto simp: set_blocks)
  then show "x \<in> grid s i"
    using n unfolding grid_iff by (intro exI [of _ j]) simp
qed

lemma distinct_blocks: "0 < sz \<Longrightarrow> distinct (blocks s sz i n)"
  by (simp add: blocks_def distinct_map inj_on_def)

lemma unat_requestedPages:
  assumes "i < 32768"
  shows "unat (requestedPages (of_nat (csize i))) * 4096 = rsize i"
proof -
  have c: "csize i \<le> 262144"
    using assms by (simp add: csize_def)
  then have u: "unat (of_nat (csize i) :: size_t) = csize i"
    by (simp add: unat_of_nat)
  show ?thesis
  proof (cases "csize i \<le> 32768")
    case True
    then have "requestedPages (of_nat (csize i)) = 8"
      using u by (simp add: requestedPages_small)
    then show ?thesis
      using True assms by (simp add: rsize_eq)
  next
    case False
    then have n: "\<not> (of_nat (csize i) :: size_t) \<le> SPAN_PAGES * PAGE_SIZE"
      using u by (simp add: word_le_nat_alt SPAN_PAGES_def PAGE_SIZE_def)
    have a: "unat (of_nat (csize i) + 4095 :: size_t) = csize i + 4095"
      using c u by (simp add: unat_word_ariths)
    have d: "unat ((of_nat (csize i) + 4095 :: size_t) div 4096) = (csize i + 4095) div 4096"
      using a by (simp add: unat_div)
    have "requestedPages (of_nat (csize i)) = (of_nat (csize i) + 4095) div 4096"
      using n by (simp add: requestedPages_def Let_def PAGE_SIZE_def add.commute)
    then show ?thesis
      using d False assms by (simp add: rsize_eq)
  qed
qed

lemma spec_total:
  assumes "i < 32768"
  shows "rsize i div csize i = nblocks i"
proof (cases "csize i \<le> 32768")
  case True
  then have "1 \<le> 32768 div csize i"
    by (simp add: Suc_leI div_greater_zero_iff)
  then show ?thesis
    using True assms by (simp add: rsize_eq nblocks_def)
next
  case False
  define r where "r = (csize i + 4095) div 4096 * 4096"
  have "(csize i + 4095) mod 4096 < 4096"
    by simp
  moreover have "r + (csize i + 4095) mod 4096 = csize i + 4095"
    unfolding r_def by (rule div_mult_mod_eq)
  ultimately have "csize i \<le> r" "r < 2 * csize i"
    using False by linarith+
  then have "r div csize i = 1"
    by (simp add: div_nat_eqI)
  moreover have "32768 div csize i = 0"
    using False by simp
  ultimately show ?thesis
    using False assms by (simp add: rsize_eq nblocks_def r_def)
qed

lemma fetchRange_carve:
  assumes "index < FREE_LIST_SIZE" and "batchNum \<noteq> 0"
    and "centralFreeList st (unat index) = 0"
    and "fetchFromPageCache st ((index + 1) * ALIGNMENT) env = Inr (start, st1)"
    and "start \<noteq> 0"
    and "s = csize (unat index)"
    and "t = nblocks (unat index)"
    and "a = min (unat batchNum) t"
  shows "\<exists>st'. fetchRange st index batchNum env = Inr (start, st') \<and>
           freeList st' = freeList st \<and> freeListSize st' = freeListSize st \<and>
           pageCache st' = pageCache st1 \<and>
           centralFreeList st' = (centralFreeList st)(unat index := hd0 (blocks start s a t)) \<and>
           (2 \<le> a \<longrightarrow> chain (mem st') start (blocks start s 0 a)) \<and>
           chain (mem st') (hd0 (blocks start s a t)) (blocks start s a t) \<and>
           (\<forall>x. x \<notin> set (blocks start s 0 t) \<longrightarrow> mem st' x = mem st1 x) \<and>
           (a \<le> 1 \<longrightarrow> mem st' start = mem st1 start)"
proof -
  have s8: "s = (unat index + 1) * 8"
    by (simp add: assms(6) csize_def)
  define t0 where "t0 = 32768 div s"
  define a0 where "a0 = min (unat batchNum) t0"
  obtain st' where f: "fetchRange st index batchNum env = Inr (start, st')"
    "freeList st' = freeList st" "freeListSize st' = freeListSize st"
    "pageCache st' = pageCache st1"
    "centralFreeList st' =
       (centralFreeList st)(unat index := if a0 < t0 then start + a0 * s else 0)"
    "2 \<le> a0 \<longrightarrow> chain (mem st') start (blocks start s 0 a0)"
    "a0 < t0 \<longrightarrow> chain (mem st') (start + a0 * s) (blocks start s a0 t0)"
    "\<And>x. x \<notin> set (blocks start s 0 t0) \<Longrightarrow> mem st' x = mem st1 x"
    "a0 \<le> 1 \<longrightarrow> mem st' start = mem st1 start"
    using fetchRange_fresh [OF assms(1-5) s8 t0_def a0_def] by blast
  have b1: "1 \<le> unat batchNum"
    using assms(2) by (simp add: Suc_leI unat_gt_0)
  show ?thesis
  proof (cases "s \<le> 32768")
    case True
    then have "1 \<le> 32768 div s"
      using s8 by (simp add: Suc_leI div_greater_zero_iff)
    then have tt: "t = t0" and aa: "a = a0"
      by (simp_all add: assms(6,7,8) nblocks_def t0_def a0_def)
    have h: "hd0 (blocks start s a0 t0) = (if a0 < t0 then start + a0 * s else 0)"
      by (simp add: blocks_Cons)
    have c: "chain (mem st') (hd0 (blocks start s a0 t0)) (blocks start s a0 t0)"
      using f(7) by (cases "a0 < t0") (simp_all add: blocks_Cons)
    show ?thesis
      unfolding tt aa
      using f(1-4) f(6) f(8,9) c f(5) [folded h] by blast
  next
    case False
    then have t00: "t0 = 0" and a00: "a0 = 0"
      by (simp_all add: t0_def a0_def)
    have tt: "t = 1" and aa: "a = 1"
      using False b1 t00 by (simp_all add: assms(6,7,8) nblocks_def t0_def)
    have m: "mem st' x = mem st1 x" for x
      using f(8) [of x] by (simp add: t00)
    have cf: "centralFreeList st' = (centralFreeList st)(unat index := 0)"
      using f(5) by (simp add: t00 a00)
    show ?thesis
      unfolding tt aa
      using f(1-4) cf m by simp
  qed
qed

lemma lower_bound_ge: "lower_bound m n = Some (k, v) \<Longrightarrow> n \<le> k"
  by (induction m) (auto split: if_splits)

lemma allocateSpan_pages:
  assumes "allocateSpan pc m n env = Inr (p, pc', m')" and "p \<noteq> 0"
    and "\<And>key sp span. lower_bound (freeSpans pc) n = Some (key, sp) \<Longrightarrow>
            spans pc sp = Some span \<Longrightarrow> numPages span = key"
  shows "\<exists>sp span. spanMap pc' p = Some sp \<and> spans pc' sp = Some span \<and>
           pageAddr span = p \<and> numPages span = n"
proof (cases "lower_bound (freeSpans pc) n")
  case None
  then show ?thesis
    using assms(1,2)
    by (auto simp: allocateSpan_def systemAlloc_def Let_def split: option.splits if_splits)
next
  case (Some ks)
  obtain key sp where ks: "ks = (key, sp)"
    by (cases ks)
  obtain span where d: "deref (spans pc) sp = Inr span"
    using assms(1) Some ks by (auto simp: allocateSpan_def split: sum.splits)
  then have sp: "spans pc sp = Some span"
    by (auto simp: deref_def split: if_splits option.splits)
  have k: "numPages span = key" "n \<le> key"
    using assms(3) [of key sp span] lower_bound_ge [of "freeSpans pc" n key sp] Some ks sp
    by simp_all
  show ?thesis
  proof (cases "n < numPages span")
    case True
    then show ?thesis
      using assms(1) Some ks d
      by (auto simp: allocateSpan_def Let_def split: prod.splits)
  next
    case False
    then have "numPages span = n"
      using k by simp
    then show ?thesis
      using assms(1) Some ks d sp False
      by (auto simp: allocateSpan_def Let_def split: prod.splits)
  qed
qed

lemma class_total:
  assumes "index < FREE_LIST_SIZE" and "sz = (index + 1) * ALIGNMENT"
  shows "unat sz = csize (unat index)"
    and "unat (requestedPages sz) * 4096 = rsize (unat index)"
    and "unat (requestedPages sz * PAGE_SIZE) = rsize (unat index)"
    and "(unat (requestedPages sz) * 4096) div unat sz = nblocks (unat index)"
proof -
  have i: "unat index < 32768"
    using assms(1) by (rule index_bound)
  show c: "unat sz = csize (unat index)"
    using assms by (simp add: unat_class_csize)
  show r: "unat (requestedPages sz) * 4096 = rsize (unat index)"
    using unat_requestedPages [OF i] assms by (simp add: of_nat_csize)
  show "unat (requestedPages sz * PAGE_SIZE) = rsize (unat index)"
    using assms by (simp add: rsize_def of_nat_csize)
  show "(unat (requestedPages sz) * 4096) div unat sz = nblocks (unat index)"
    unfolding r c using i by (rule spec_total)
qed


section \<open>Carving a span\<close>

text \<open>
  Claim C1. The central list of the size class \<open>index\<close> is empty and \<^verbatim>\<open>fetchFromPageCache\<close>
  hands out a span at \<open>start\<close>. \<open>pagesReceived\<close> is the page count that
  \<^verbatim>\<open>fetchFromPageCache\<close> passes to \<^verbatim>\<open>allocateSpan\<close>; the descriptor recorded for \<open>start\<close>
  carries it, provided each free list is filed under the page count of its spans. Then
  \<open>blockCount = pagesReceived * PAGE_SIZE / blockSize\<close> is at least 1 and that many blocks
  fit in the pages received; \<^verbatim>\<open>fetchRange\<close> returns the first block, leaves the blocks
  \<open>alloc, \<dots>, blockCount - 1\<close> chained in the central list, links the first \<open>alloc\<close>
  blocks when there are at least two, and writes nowhere outside these blocks.
  For blocks of more than 32768 bytes the local variable \<^verbatim>\<open>totalBlocks\<close> of the source is
  0 where \<open>blockCount\<close> is 1; with \<open>batchNum \<ge> 1\<close> either value makes \<^verbatim>\<open>fetchRange\<close> skip both
  of its loops, so the span is handed out as the one block it holds.
\<close>

theorem C1_carving:
  assumes "index < FREE_LIST_SIZE" and "batchNum \<noteq> 0"
    and "centralFreeList st (unat index) = 0"
    and "blockSize = (index + 1) * ALIGNMENT"
    and "fetchFromPageCache st blockSize env = Inr (start, st1)" and "start \<noteq> 0"
    and "pagesReceived = requestedPages blockSize"
    and "blockCount = (unat pagesReceived * 4096) div unat blockSize"
    and "alloc = min (unat batchNum) blockCount"
  shows "1 \<le> blockCount \<and> blockCount * unat blockSize \<le> unat pagesReceived * 4096 \<and>
         ((\<forall>key sp span. lower_bound (freeSpans (pageCache st)) pagesReceived = Some (key, sp) \<and>
                         spans (pageCache st) sp = Some span \<longrightarrow> numPages span = key) \<longrightarrow>
            (\<exists>sp span. spanMap (pageCache st1) start = Some sp \<and>
                       spans (pageCache st1) sp = Some span \<and>
                       pageAddr span = start \<and> numPages span = pagesReceived)) \<and>
         (\<exists>st'. fetchRange st index batchNum env = Inr (start, st') \<and>
                centralFreeList st' (unat index) = hd0 (blocks start (unat blockSize) alloc blockCount) \<and>
                chain (mem st') (centralFreeList st' (unat index))
                  (blocks start (unat blockSize) alloc blockCount) \<and>
                (2 \<le> alloc \<longrightarrow> chain (mem st') start (blocks start (unat blockSize) 0 alloc)) \<and>
                (\<forall>x. x \<notin> set (blocks start (unat blockSize) 0 blockCount) \<longrightarrow> mem st' x = mem st1 x))"
proof -
  have ct: "unat blockSize = csize (unat index)"
    "unat pagesReceived * 4096 = rsize (unat index)"
    "blockCount = nblocks (unat index)"
    using class_total [OF assms(1,4)] assms(7,8) by simp_all
  have t1: "1 \<le> blockCount"
    using nblocks_pos [of "unat index"] unfolding ct(3) by (simp add: Suc_leI)
  have fit: "blockCount * unat blockSize \<le> unat pagesReceived * 4096"
    unfolding ct using index_bound [OF assms(1)] by (rule nblocks_fit)
  have pages: "\<exists>sp span. spanMap (pageCache st1) start = Some sp \<and>
                       spans (pageCache st1) sp = Some span \<and>
                       pageAddr span = start \<and> numPages span = pagesReceived"
    if h: "\<forall>key sp span. lower_bound (freeSpans (pageCache st)) pagesReceived = Some (key, sp) \<and>
                         spans (pageCache st) sp = Some span \<longrightarrow> numPages span = key"
  proof -
    obtain m' where a: "allocateSpan (pageCache st) (mem st) pagesReceived env =
        Inr (start, pageCache st1, m')"
      using assms(5,7) by (auto simp: fetchFromPageCache_def split: sum.splits)
    show ?thesis
      using h by (intro allocateSpan_pages [OF a assms(6)]) blast
  qed
  have f: "fetchFromPageCache st ((index + 1) * ALIGNMENT) env = Inr (start, st1)"
    using assms(4,5) by simp
  have a: "alloc = min (unat batchNum) (nblocks (unat index))"
    using assms(9) ct(3) by simp
  obtain st' where st': "fetchRange st index batchNum env = Inr (start, st')"
    "centralFreeList st' =
       (centralFreeList st)(unat index := hd0 (blocks start (csize (unat index)) alloc blockCount))"
    "2 \<le> alloc \<longrightarrow> chain (mem st') start (blocks start (csize (unat index)) 0 alloc)"
    "chain (mem st') (hd0 (blocks start (csize (unat index)) alloc blockCount))
       (blocks start (csize (unat index)) alloc blockCount)"
    "\<forall>x. x \<notin> set (blocks start (csize (unat index)) 0 blockCount) \<longrightarrow> mem st' x = mem st1 x"
    using fetchRange_carve [OF assms(1,2,3) f assms(6) refl refl a] unfolding ct(3) by blast
  have c: "centralFreeList st' (unat index) = hd0 (blocks start (unat blockSize) alloc blockCount)"
    using st'(2) by (simp add: ct(1))
  have "\<exists>st'. fetchRange st index batchNum env = Inr (start, st') \<and>
                centralFreeList st' (unat index) = hd0 (blocks start (unat blockSize) alloc blockCount) \<and>
                chain (mem st') (centralFreeList st' (unat index))
                  (blocks start (unat blockSize) alloc blockCount) \<and>
                (2 \<le> alloc \<longrightarrow> chain (mem st') start (blocks start (unat blockSize) 0 alloc)) \<and>
                (\<forall>x. x \<notin> set (blocks start (unat blockSize) 0 blockCount) \<longrightarrow> mem st' x = mem st1 x)"
    using st'(1,3,4,5) c unfolding ct(1) by (intro exI [of _ st']) simp
  then show ?thesis
    using t1 fit pages by blast
qed

theorem C1_carving_witness:
  "(4096::size_t) < FREE_LIST_SIZE \<and> (1::size_t) \<noteq> 0 \<and>
   centralFreeList (init_allocator (\<lambda>a. 0)) (unat (4096::size_t)) = 0 \<and>
   (4096 + 1) * ALIGNMENT = (32776::size_t) \<and>
   requestedPages 32776 = 9 \<and>
   (\<exists>st1. fetchFromPageCache (init_allocator (\<lambda>a. 0)) 32776 (os_at 65536) = Inr (65536, st1) \<and>
      (\<exists>sp span. spanMap (pageCache st1) 65536 = Some sp \<and> spans (pageCache st1) sp = Some span \<and>
                 pageAddr span = 65536 \<and> numPages span = 9) \<and>
      (\<exists>st'. fetchRange (init_allocator (\<lambda>a. 0)) 4096 1 (os_at 65536) = Inr (65536, st') \<and>
             centralFreeList st' 4096 = 0 \<and>
             (\<forall>x. x \<noteq> 65536 \<longrightarrow> mem st' x = mem st1 x)))"
proof -
  let ?st = "init_allocator (\<lambda>a. 0)"
  let ?env = "os_at 65536"
  let ?st1 = "snd (projr (fetchFromPageCache ?st 32776 ?env))"
  have a1: "(4096::size_t) < FREE_LIST_SIZE"
    by (simp add: FREE_LIST_SIZE_def MAX_BYTES_def ALIGNMENT_def)
  have a2: "(1::size_t) \<noteq> 0"
    by simp
  have a3: "centralFreeList ?st (unat (4096::size_t)) = 0"
    by (simp add: init_allocator_def)
  have a4: "(32776::size_t) = (4096 + 1) * ALIGNMENT"
    by (simp add: ALIGNMENT_def)
  have a5: "fetchFromPageCache ?st 32776 ?env = Inr (65536, ?st1)"
    by (simp add: fetchFromPageCache_def allocateSpan_def systemAlloc_def init_allocator_def
        init_pageCache_def os_at_def requestedPages_def SPAN_PAGES_def PAGE_SIZE_def Let_def)
  have a7: "requestedPages 32776 = 9"
    by (simp add: requestedPages_def SPAN_PAGES_def PAGE_SIZE_def)
  have a8: "1 = (unat (9::size_t) * 4096) div unat (32776::size_t)"
    by simp
  have a9: "1 = min (unat (1::size_t)) 1"
    by simp
  have l: "lower_bound (freeSpans (pageCache ?st)) 9 = None"
    by (simp add: init_allocator_def init_pageCache_def)
  have b: "blocks 65536 32776 0 1 = [65536]" "blocks 65536 32776 1 1 = []"
    by (simp_all add: blocks_def)
  show ?thesis
    using C1_carving [OF a1 a2 a3 a4 a5 _ a7 [symmetric] a8 a9] a1 a3 a4 a5 a7 l b
    by simp blast
qed

section \<open>The chain handed to the caller\<close>

lemma recycled_state_reached:
  "(case allocateSpan init_pageCache (\<lambda>a. 0) 8 (os_at 65536) of
      Inr (p1, pc1, m1) \<Rightarrow>
        p1 = 65536 \<and> deallocateSpan pc1 65536 8 = Some (Inr (pageCache recycled_state)) \<and>
        mem recycled_state = m1(65536 := 12345)
    | Inl e \<Rightarrow> False)"
  by (simp add: allocateSpan_def deallocateSpan_def init_pageCache_def os_at_def systemAlloc_def
      deref_def insert_free_def map_subscript_def ptr_add_def recycled_state_def memset_zero_def
      PAGE_SIZE_def Let_def fun_eq_iff)






section \<open>Returning a span to the page cache\<close>




lemma linked_null: "linked ss 0 xs \<Longrightarrow> xs = []"
  by (cases xs) auto













lemma left_free_spans_reached:
  "(case allocateSpan init_pageCache m 1 (os_at 65536) of
      Inr (p1, pc1, m1) \<Rightarrow>
        (case allocateSpan pc1 m1 1 (os_at 69632) of
           Inr (p2, pc2, m2) \<Rightarrow>
             p1 = 65536 \<and> p2 = 69632 \<and> deallocateSpan pc2 65536 1 = Some (Inr left_free_spans)
         | Inl e \<Rightarrow> False)
    | Inl e \<Rightarrow> False)"
  by (simp add: allocateSpan_def deallocateSpan_def init_pageCache_def os_at_def systemAlloc_def
      deref_def insert_free_def map_subscript_def ptr_add_def left_free_spans_def
      PAGE_SIZE_def Let_def fun_eq_iff numeral_2_eq_2)




section \<open>Spilling the thread cache\<close>

lemma chain_nth:
  "chain m h xs \<Longrightarrow> i < length xs \<Longrightarrow>
     xs ! i \<noteq> 0 \<and> m (xs ! i) = (if Suc i < length xs then xs ! Suc i else 0)"
proof (induction xs arbitrary: h i)
  case Nil
  then show ?case by simp
next
  case (Cons x xs)
  show ?case
  proof (cases i)
    case 0
    then show ?thesis
      using Cons.prems chain_hd0 [of m "m x" xs] by (cases xs) auto
  next
    case (Suc j)
    then show ?thesis
      using Cons.IH [of "m x" j] Cons.prems by simp
  qed
qed

lemma find_split_chain:
  assumes "chain m h xs"
  shows "i < length xs \<Longrightarrow> i \<le> bound \<Longrightarrow>
     find_split m (xs ! i) i bound b r =
       (if bound < length xs then (xs ! bound, r) else (0, b - of_nat (length xs)))"
proof (induction "bound - i" arbitrary: i)
  case 0
  then show ?case
    using find_split.simps [of m "xs ! i" i bound b r] by simp
next
  case (Suc d)
  have lt: "i < bound"
    using Suc.hyps(2) by simp
  have nx: "m (xs ! i) = (if Suc i < length xs then xs ! Suc i else 0)"
    using chain_nth [OF assms Suc.prems(1)] by simp
  show ?case
  proof (cases "Suc i < length xs")
    case True
    have "xs ! Suc i \<noteq> 0"
      using chain_nth [OF assms True] by simp
    moreover have "find_split m (xs ! Suc i) (Suc i) bound b r =
       (if bound < length xs then (xs ! bound, r) else (0, b - of_nat (length xs)))"
      using Suc.hyps(2) True lt by (intro Suc.hyps(1)) auto
    ultimately show ?thesis
      using lt nx True find_split.simps [of m "xs ! i" i bound b r] by (simp add: Let_def)
  next
    case False
    then have e: "Suc i = length xs"
      using Suc.prems(1) by simp
    then have "\<not> bound < length xs"
      using lt by simp
    moreover have "(of_nat i + 1 :: size_t) = of_nat (length xs)"
      using e by (metis of_nat_Suc add.commute)
    ultimately show ?thesis
      using lt nx False find_split.simps [of m "xs ! i" i bound b r] by (simp add: Let_def)
  qed
qed

lemma keepNum_facts:
  assumes "1 < (n::size_t)" and "keep = max (n div 4) 1"
  shows "unat keep = max (unat n div 4) 1" and "unat (keep - 1) = unat keep - 1"
    and "0 < n - keep"
proof -
  show k: "unat keep = max (unat n div 4) 1"
    using assms(2) by (simp add: unat_max unat_div)
  have "1 \<le> keep"
    using k by (simp add: word_le_nat_alt)
  then show "unat (keep - 1) = unat keep - 1"
    by (simp add: unat_sub)
  have n1: "1 < unat n"
    using assms(1) by (simp add: word_less_nat_alt)
  then have "unat keep < unat n"
    using k by (auto simp: max_def)
  then have "keep < n"
    by (simp add: word_less_nat_alt)
  then show "0 < n - keep"
    by (simp add: word_neq_0_conv [symmetric])
qed

lemma returnToCentralCache_spill:
  assumes "getIndex sz < FREE_LIST_SIZE" and "i = unat (getIndex sz)"
    and "n = freeListSize st i" and "1 < n" and "keep = max (n div 4) 1"
    and "chain (mem st) start xs" and "xs \<noteq> []"
  shows "unat keep \<le> length xs \<Longrightarrow>
           returnToCentralCache st start sz =
             Inr (let st1 = st\<lparr>mem := (mem st)(xs ! (unat keep - 1) := 0),
                              freeList := (freeList st)(i := start),
                              freeListSize := (freeListSize st)(i := keep)\<rparr>
                  in if drop (unat keep) xs = [] then st1
                     else returnRange st1 (hd0 (drop (unat keep) xs))
                            ((n - keep) * roundUp sz) (getIndex sz))"
    and "length xs < unat keep \<Longrightarrow> returnToCentralCache st start sz = Inr st"
proof -
  have st: "start = xs ! 0" "start \<noteq> 0"
    using assms(6,7) by (cases xs; simp)+
  have kf: "unat keep = max (unat n div 4) 1" "unat (keep - 1) = unat keep - 1" "0 < n - keep"
    using keepNum_facts [OF assms(4,5)] by simp_all
  have n1: "\<not> n \<le> 1"
    using assms(4) by simp
  have rt: "returnToCentralCache st start sz =
     (case find_split (mem st) start 0 (unat keep - 1) n (n - keep) of
        (splitNode, returnNum') \<Rightarrow>
          if splitNode \<noteq> 0 then
            let nextNode = mem st splitNode;
                st1 = st\<lparr>mem := (mem st)(splitNode := 0),
                         freeList := (freeList st)(unat (getIndex sz) := start),
                         freeListSize := (freeListSize st)(unat (getIndex sz) := keep)\<rparr>
            in if returnNum' > 0 \<and> nextNode \<noteq> 0
               then Inr (returnRange st1 nextNode (returnNum' * roundUp sz) (getIndex sz))
               else Inr st1
          else Inr st)"
    using assms(1) n1 st(2)
    by (simp add: returnToCentralCache_def Let_def assms(2) [symmetric] assms(3) [symmetric]
        assms(5) [symmetric] kf(2))
  have fs: "find_split (mem st) start 0 (unat keep - 1) n (n - keep) =
              (if unat keep - 1 < length xs then (xs ! (unat keep - 1), n - keep)
               else (0, n - of_nat (length xs)))"
    using find_split_chain [OF assms(6), of 0 "unat keep - 1" n "n - keep"] assms(7) st by simp
  {
    assume le: "unat keep \<le> length xs"
    have k1: "unat keep - 1 < length xs" "0 < unat keep"
      using le kf(1) by auto
    have sn: "xs ! (unat keep - 1) \<noteq> 0"
      and nx: "mem st (xs ! (unat keep - 1)) = (if unat keep < length xs then xs ! unat keep else 0)"
      using chain_nth [OF assms(6) k1(1)] k1(2) by simp_all
    have hd: "hd0 (drop (unat keep) xs) = (if unat keep < length xs then xs ! unat keep else 0)"
    proof (cases "unat keep < length xs")
      case True
      then show ?thesis
        using Cons_nth_drop_Suc [OF True, symmetric] by simp
    next
      case False
      then show ?thesis by simp
    qed
    have nz: "(mem st (xs ! (unat keep - 1)) \<noteq> 0) = (drop (unat keep) xs \<noteq> [])"
    proof (cases "unat keep < length xs")
      case True
      then show ?thesis
        using nx chain_nth [OF assms(6) True] by simp
    next
      case False
      then show ?thesis using nx by simp
    qed
    have fs': "find_split (mem st) start 0 (unat keep - 1) n (n - keep) =
                 (xs ! (unat keep - 1), n - keep)"
      using fs k1(1) by simp
    have nh: "mem st (xs ! (unat keep - 1)) = hd0 (drop (unat keep) xs)"
      using nx hd by simp
    show "returnToCentralCache st start sz =
             Inr (let st1 = st\<lparr>mem := (mem st)(xs ! (unat keep - 1) := 0),
                              freeList := (freeList st)(i := start),
                              freeListSize := (freeListSize st)(i := keep)\<rparr>
                  in if drop (unat keep) xs = [] then st1
                     else returnRange st1 (hd0 (drop (unat keep) xs))
                            ((n - keep) * roundUp sz) (getIndex sz))"
      unfolding rt fs' using sn kf(3) nz
      by (simp add: Let_def nh [symmetric] assms(2))
  }
  {
    assume lt: "length xs < unat keep"
    then have "\<not> unat keep - 1 < length xs"
      by simp
    then have "find_split (mem st) start 0 (unat keep - 1) n (n - keep) = (0, n - of_nat (length xs))"
      using fs by (simp only: if_False)
    then show "returnToCentralCache st start sz = Inr st"
      unfolding rt by simp
  }
qed

lemma deallocate_push:
  assumes "sz \<le> MAX_BYTES" and "ptr \<noteq> 0" and "i = unat (getIndex sz)"
    and "pushed = st\<lparr>mem := (mem st)(ptr := freeList st i),
                      freeList := (freeList st)(i := ptr),
                      freeListSize := (freeListSize st)(i := freeListSize st i + 1)\<rparr>"
  shows "deallocate st ptr sz =
           (if 64 < freeListSize st i + 1 then returnToCentralCache pushed ptr sz else Inr pushed)"
proof -
  have "getIndex sz < FREE_LIST_SIZE"
    using assms(1) by (intro getIndex_less MAX_BYTES_bound)
  moreover have "\<not> MAX_BYTES < sz"
    using assms(1) by simp
  ultimately show ?thesis
    using assms(2)
    by (simp add: deallocate_def Let_def shouldReturnToCentralCache_def assms(3,4))
qed

text \<open>
  Claim C7, amended. \<^verbatim>\<open>deallocate(ptr, size)\<close> with \<open>size \<le> MAX_BYTES\<close> (\<open>ptr\<close> not
  null and not already in the list) pushes the block on \<^verbatim>\<open>freeList_[i]\<close> and increments
  \<^verbatim>\<open>freeListSize_[i]\<close> to \<open>n\<close>. For \<open>n \<le> 64\<close> nothing else happens. For \<open>n > 64\<close>, with
  \<open>keep = max(n / 4, 1)\<close> taken from the counter \<open>n\<close>: when the list has at least \<open>keep\<close>
  blocks, its first \<open>keep\<close> blocks stay, \<^verbatim>\<open>freeListSize_[i]\<close> becomes \<open>keep\<close>, and the
  blocks behind them, if any, go to \<^verbatim>\<open>returnRange\<close> with the size argument
  \<open>(n - keep) * roundUp(size)\<close>; when the list has fewer than \<open>keep\<close> blocks the spill
  changes nothing and the counter stays \<open>n\<close>. \<^verbatim>\<open>returnToCentralCache\<close> called with a
  counter of at most 1 returns without changes.
\<close>

theorem C7_deallocate_spill:
  assumes "sz \<le> MAX_BYTES" and "ptr \<noteq> 0" and "i = unat (getIndex sz)"
    and "chain (mem st) (freeList st i) ys" and "ptr \<notin> set ys"
    and "n = freeListSize st i + 1" and "keep = max (n div 4) 1" and "k = unat keep"
    and "pushed = st\<lparr>mem := (mem st)(ptr := freeList st i),
                      freeList := (freeList st)(i := ptr),
                      freeListSize := (freeListSize st)(i := n)\<rparr>"
    and "xs = ptr # ys"
  shows "chain (mem pushed) (freeList pushed i) xs \<and>
         (\<not> 64 < n \<longrightarrow> deallocate st ptr sz = Inr pushed) \<and>
         (64 < n \<and> k \<le> length xs \<longrightarrow>
            (\<exists>st1. mem st1 = (mem pushed)(xs ! (k - 1) := 0) \<and>
                   freeList st1 = freeList pushed \<and>
                   freeListSize st1 = (freeListSize pushed)(i := keep) \<and>
                   centralFreeList st1 = centralFreeList pushed \<and>
                   chain (mem st1) (freeList st1 i) (take k xs) \<and>
                   chain (mem st1) (hd0 (drop k xs)) (drop k xs) \<and>
                   deallocate st ptr sz =
                     Inr (if drop k xs = [] then st1
                          else returnRange st1 (hd0 (drop k xs))
                                 ((n - keep) * roundUp sz) (getIndex sz)))) \<and>
         (64 < n \<and> length xs < k \<longrightarrow> deallocate st ptr sz = Inr pushed) \<and>
         (freeListSize st i \<le> 1 \<longrightarrow> returnToCentralCache st start sz = Inr st)"
proof -
  have idx: "getIndex sz < FREE_LIST_SIZE"
    using assms(1) by (intro getIndex_less MAX_BYTES_bound)
  have d: "deallocate st ptr sz =
           (if 64 < n then returnToCentralCache pushed ptr sz else Inr pushed)"
    using deallocate_push [OF assms(1,2,3)] assms(6,9) by simp
  have hd: "freeList st i = hd0 ys"
    using assms(4) by (rule chain_hd0)
  have c: "chain (mem pushed) ptr xs"
    using assms(2,4,5) by (simp add: assms(9,10) chain_frame)
  have p1: "chain (mem pushed) (freeList pushed i) xs"
    using c by (simp add: assms(9))
  have p2: "\<not> 64 < n \<longrightarrow> deallocate st ptr sz = Inr pushed"
    using d by simp
  have ne: "xs \<noteq> []"
    by (simp add: assms(10))
  have np: "n = freeListSize pushed i"
    by (simp add: assms(9))
  have p3: "\<exists>st1. mem st1 = (mem pushed)(xs ! (k - 1) := 0) \<and>
                   freeList st1 = freeList pushed \<and>
                   freeListSize st1 = (freeListSize pushed)(i := keep) \<and>
                   centralFreeList st1 = centralFreeList pushed \<and>
                   chain (mem st1) (freeList st1 i) (take k xs) \<and>
                   chain (mem st1) (hd0 (drop k xs)) (drop k xs) \<and>
                   deallocate st ptr sz =
                     Inr (if drop k xs = [] then st1
                          else returnRange st1 (hd0 (drop k xs))
                                 ((n - keep) * roundUp sz) (getIndex sz))"
    if big: "64 < n" and le: "k \<le> length xs"
  proof -
    define st1 where "st1 = pushed\<lparr>mem := (mem pushed)(xs ! (k - 1) := 0),
                                   freeList := (freeList pushed)(i := ptr),
                                   freeListSize := (freeListSize pushed)(i := keep)\<rparr>"
    have n1: "1 < n"
      using big by (simp add: word_less_nat_alt)
    have k0: "0 < k"
      using keepNum_facts(1) [OF n1 assms(7)] assms(8) by simp
    have r: "returnToCentralCache pushed ptr sz =
               Inr (if drop k xs = [] then st1
                    else returnRange st1 (hd0 (drop k xs)) ((n - keep) * roundUp sz) (getIndex sz))"
      using returnToCentralCache_spill(1) [OF idx assms(3) np n1 assms(7) c ne] le
      by (simp add: Let_def st1_def assms(8))
    have split: "xs = take (k - 1) xs @ xs ! (k - 1) # drop k xs"
      using k0 le id_take_nth_drop [of "k - 1" xs] by simp
    have c': "chain (mem pushed) ptr (take (k - 1) xs @ xs ! (k - 1) # drop k xs)"
      using c split by simp
    have t: "take k xs = take (k - 1) xs @ [xs ! (k - 1)]"
      using k0 le take_Suc_conv_app_nth [of "k - 1" xs] by simp
    have c1: "chain (mem st1) ptr (take k xs)"
      using chain_cut(1) [OF c'] t by (simp add: st1_def)
    have "chain (mem st1) (mem pushed (xs ! (k - 1))) (drop k xs)"
      using chain_cut(2) [OF c'] by (simp add: st1_def)
    then have c2: "chain (mem st1) (hd0 (drop k xs)) (drop k xs)"
      using chain_hd0 by fastforce
    have fl: "freeList st1 = freeList pushed"
      by (simp add: st1_def assms(9))
    show ?thesis
      using c1 c2 fl d big r
      by (intro exI [of _ st1]) (simp add: st1_def assms(9))
  qed
  have p4: "deallocate st ptr sz = Inr pushed" if big: "64 < n" and lt: "length xs < k"
  proof -
    have n1: "1 < n"
      using big by (simp add: word_less_nat_alt)
    show ?thesis
      using returnToCentralCache_spill(2) [OF idx assms(3) np n1 assms(7) c ne] lt d big
      by (simp add: assms(8))
  qed
  have p5: "freeListSize st i \<le> 1 \<longrightarrow> returnToCentralCache st start sz = Inr st"
    using idx by (simp add: returnToCentralCache_def Let_def assms(3))
  show ?thesis
    using p1 p2 p3 p4 p5 by blast
qed

theorem C7_deallocate_spill_witness:
  "(16384::size_t) \<le> MAX_BYTES \<and>
   chain (mem full_thread_state) (freeList full_thread_state 2047) (blocks 65536 16384 0 20) \<and>
   393216 \<notin> set (blocks 65536 16384 0 20) \<and>
   (64::size_t) < freeListSize full_thread_state 2047 + 1 \<and>
   (\<exists>st1. freeListSize st1 2047 = 16 \<and>
      chain (mem st1) (freeList st1 2047) (take 16 (393216 # blocks 65536 16384 0 20)) \<and>
      chain (mem st1) 311296 (drop 16 (393216 # blocks 65536 16384 0 20)) \<and>
      deallocate full_thread_state 393216 16384 =
        Inr (returnRange st1 311296 ((65 - 16) * roundUp 16384) (getIndex 16384)))"
proof -
  let ?ys = "blocks 65536 16384 0 20"
  have a1: "(16384::size_t) \<le> MAX_BYTES"
    by (simp add: MAX_BYTES_def)
  have a2: "(393216::nat) \<noteq> 0"
    by simp
  have a3: "2047 = unat (getIndex 16384)"
    by (simp add: getIndex_def ALIGNMENT_def)
  have "chain (mem full_thread_state) (65536 + 0 * 16384) (blocks 65536 16384 0 20)"
  proof (rule chain_blocks)
    fix j :: nat assume "0 \<le> j" "Suc j < 20"
    then show "mem full_thread_state (65536 + j * 16384) = 65536 + Suc j * 16384"
      by (simp add: full_thread_state_def)
  qed (simp_all add: full_thread_state_def)
  then have a4: "chain (mem full_thread_state) (freeList full_thread_state 2047) ?ys"
    by (simp add: full_thread_state_def)
  have a5: "393216 \<notin> set ?ys"
    by (auto simp: set_blocks)
  have a6: "65 = freeListSize full_thread_state 2047 + 1"
    by (simp add: full_thread_state_def)
  have a7: "(16::size_t) = max (65 div 4) 1"
    by simp
  have a8: "16 = unat (16::size_t)"
    by simp
  have len: "length ?ys = 20"
    by (simp add: blocks_def)
  have hd: "hd0 (drop 15 ?ys) = 311296"
    by (simp add: blocks_def upt_rec)
  have prem: "(64::size_t) < 65 \<and> 16 \<le> length (393216 # ?ys)"
    using len by simp
  note T = C7_deallocate_spill [OF a1 a2 a3 a4 a5 a6 a7 a8 refl refl, of 0]
  note E = mp [OF T [THEN conjunct2, THEN conjunct2, THEN conjunct1] prem]
  have "\<exists>st1. freeListSize st1 2047 = 16 \<and>
      chain (mem st1) (freeList st1 2047) (take 16 (393216 # ?ys)) \<and>
      chain (mem st1) 311296 (drop 16 (393216 # ?ys)) \<and>
      deallocate full_thread_state 393216 16384 =
        Inr (returnRange st1 311296 ((65 - 16) * roundUp 16384) (getIndex 16384))"
    using E
    apply (elim exE conjE)
    subgoal for st1
      apply (rule exI [of _ st1])
      apply (simp add: len hd)
      done
    done
  then show ?thesis
    using a1 a4 a5 a6 by simp
qed

text \<open>
  Claim C7 as stated fails when the counter is ahead of the list: with a counter of 65
  and one block in the list, \<^verbatim>\<open>deallocate\<close> pushes a second block and raises the counter
  to 66; the spill computes \<open>keep = 16\<close>, meets the end of the list and changes
  nothing: the counter stays 66 and no block reaches the central cache.
\<close>

theorem C7_spill_counterexample:
  "(16384::size_t) \<le> MAX_BYTES \<and> unat (getIndex 16384) = 2047 \<and>
   chain (mem overcounted_state) (freeList overcounted_state 2047) [65536] \<and>
   freeListSize overcounted_state 2047 + 1 = 66 \<and> (64::size_t) < 66 \<and>
   max ((66::size_t) div 4) 1 = 16 \<and>
   \<not> isl (deallocate overcounted_state 81920 16384) \<and>
   chain (mem (projr (deallocate overcounted_state 81920 16384)))
     (freeList (projr (deallocate overcounted_state 81920 16384)) 2047) [81920, 65536] \<and>
   freeListSize (projr (deallocate overcounted_state 81920 16384)) 2047 = 66 \<and>
   centralFreeList (projr (deallocate overcounted_state 81920 16384)) 2047 = 0"
  by (simp add: deallocate_def returnToCentralCache_def shouldReturnToCentralCache_def
      overcounted_state_def getIndex_def roundUp_def find_split.simps
      FREE_LIST_SIZE_def MAX_BYTES_def ALIGNMENT_def Let_def)

section \<open>The invariant: basic facts\<close>

lemma mapped_cong: "pageCache st' = pageCache st \<Longrightarrow> mapped st' = mapped st"
  by (simp add: mapped_def fun_eq_iff)

lemma spans_ok_cong: "pageCache st' = pageCache st \<Longrightarrow> spans_ok G st' = spans_ok G st"
  using mapped_cong [of st' st] by (simp add: spans_ok_def)

lemma node_grid:
  "blocks_ok T C G live \<Longrightarrow> x \<in> set (T i) \<union> set (C i) \<Longrightarrow> \<exists>s. (s, i) \<in> G \<and> x \<in> grid s i"
  unfolding blocks_ok_def by blast

lemma live_grid:
  "blocks_ok T C G live \<Longrightarrow> (p, sz) \<in> live \<Longrightarrow>
     sz \<le> MAX_BYTES \<and> (\<exists>s. (s, unat (getIndex sz)) \<in> G \<and> p \<in> grid s (unat (getIndex sz)))"
  unfolding blocks_ok_def by blast

lemma live_not_node:
  "blocks_ok T C G live \<Longrightarrow> (p, sz) \<in> live \<Longrightarrow> p \<notin> set (T i) \<and> p \<notin> set (C i)"
  unfolding blocks_ok_def by blast

lemma live_unique:
  "blocks_ok T C G live \<Longrightarrow> (p, sz) \<in> live \<Longrightarrow> (p, sz') \<in> live \<Longrightarrow> sz' = sz"
  unfolding blocks_ok_def by blast

lemma lists_disjoint:
  "blocks_ok T C G live \<Longrightarrow> x \<in> set (T i) \<Longrightarrow> x \<notin> set (C i)"
  unfolding blocks_ok_def by blast

lemma span_facts:
  assumes "spans_ok G st" and "(s, i) \<in> G"
  shows "i < 32768" and "0 < s" and "8 dvd s"
    and "\<And>a. s \<le> a \<Longrightarrow> a < s + rsize i \<Longrightarrow> mapped st a"
    and "\<And>s' j. (s', j) \<in> G \<Longrightarrow> (s', j) \<noteq> (s, i) \<Longrightarrow> s + rsize i \<le> s' \<or> s' + rsize j \<le> s"
proof -
  have "\<forall>s i. (s, i) \<in> G \<longrightarrow>
         i < 32768 \<and> 0 < s \<and> 8 dvd s \<and>
         (\<forall>a. s \<le> a \<and> a < s + rsize i \<longrightarrow> mapped st a) \<and>
         (\<forall>s' j. (s', j) \<in> G \<and> (s', j) \<noteq> (s, i) \<longrightarrow>
            s + rsize i \<le> s' \<or> s' + rsize j \<le> s)"
    using assms(1) unfolding spans_ok_def by (rule conjunct1)
  note one = this [THEN spec, of s, THEN spec, of i, THEN mp, OF assms(2)]
  show "i < 32768"
    using one by (rule conjunct1)
  show "0 < s"
    using one [THEN conjunct2] by (rule conjunct1)
  show "8 dvd s"
    using one [THEN conjunct2, THEN conjunct2] by (rule conjunct1)
  show "mapped st a" if "s \<le> a" "a < s + rsize i" for a
    using one [THEN conjunct2, THEN conjunct2, THEN conjunct2, THEN conjunct1, THEN spec, of a]
      that by (simp only: simp_thms)
  show "s + rsize i \<le> s' \<or> s' + rsize j \<le> s" if "(s', j) \<in> G" "(s', j) \<noteq> (s, i)" for s' j
    using one [THEN conjunct2, THEN conjunct2, THEN conjunct2, THEN conjunct2, THEN spec,
        of s', THEN spec, of j] that by (simp only: simp_thms)
qed

lemma grid_separate:
  assumes "spans_ok G st" and "(s, i) \<in> G" and "(s', j) \<in> G"
    and "x \<in> grid s i" and "y \<in> grid s' j" and "x \<le> y" and "y < x + csize i"
  shows "(s', j) = (s, i) \<and> x = y"
proof -
  have bx: "s \<le> x" "x + csize i \<le> s + rsize i"
    using grid_bounds [OF span_facts(1) [OF assms(1,2)] assms(4)] by simp_all
  have by': "s' \<le> y" "y + csize j \<le> s' + rsize j"
    using grid_bounds [OF span_facts(1) [OF assms(1,3)] assms(5)] by simp_all
  have cj: "0 < csize j"
    by simp
  have same: "(s', j) = (s, i)"
  proof (rule ccontr)
    assume "(s', j) \<noteq> (s, i)"
    then have "s + rsize i \<le> s' \<or> s' + rsize j \<le> s"
      using span_facts(5) [OF assms(1,2,3)] by simp
    then show False
      using bx by' cj assms(6,7) by linarith
  qed
  then have "y \<in> grid s i"
    using assms(5) by simp
  then have "x = y"
    using grid_inj [OF assms(4) _ assms(6,7)] by simp
  then show ?thesis
    using same by simp
qed

lemma node_mapped:
  assumes "spans_ok G st" and "(s, i) \<in> G" and "x \<in> grid s i"
  shows "mapped st x" and "0 < x" and "8 dvd x"
proof -
  have b: "s \<le> x" "x + csize i \<le> s + rsize i"
    using grid_bounds [OF span_facts(1) [OF assms(1,2)] assms(3)] by simp_all
  have "0 < csize i"
    by simp
  then have "x < s + rsize i"
    using b(2) by linarith
  then show "mapped st x"
    using span_facts(4) [OF assms(1,2)] b(1) by simp
  show "0 < x"
    using b(1) span_facts(2) [OF assms(1,2)] by simp
  show "8 dvd x"
    using grid_aligned [OF span_facts(3) [OF assms(1,2)] assms(3)] .
qed

lemma node_class_unique:
  assumes "blocks_ok T C G live" and "spans_ok G st"
    and "x \<in> set (T i) \<union> set (C i)" and "x \<in> set (T j) \<union> set (C j)"
  shows "i = j"
proof -
  obtain s where s: "(s, i) \<in> G" "x \<in> grid s i"
    using node_grid [OF assms(1,3)] by blast
  obtain s' where s': "(s', j) \<in> G" "x \<in> grid s' j"
    using node_grid [OF assms(1,4)] by blast
  have "x < x + csize i"
    by simp
  then show ?thesis
    using grid_separate [OF assms(2) s(1) s'(1) s(2) s'(2)] by simp
qed

lemma client_write_not_node:
  assumes "blocks_ok T C G live" and "spans_ok G st"
    and "(\<exists>p sz. (p, sz) \<in> live \<and> p \<le> a \<and> a < p + unat sz) \<or> \<not> mapped st a"
  shows "a \<notin> set (T j) \<union> set (C j)"
proof
  assume n: "a \<in> set (T j) \<union> set (C j)"
  obtain s' where s': "(s', j) \<in> G" "a \<in> grid s' j"
    using node_grid [OF assms(1) n] by blast
  have m: "mapped st a"
    using node_mapped(1) [OF assms(2) s'] .
  then obtain p sz where l: "(p, sz) \<in> live" "p \<le> a" "a < p + unat sz"
    using assms(3) by blast
  obtain s where s: "sz \<le> MAX_BYTES" "(s, unat (getIndex sz)) \<in> G" "p \<in> grid s (unat (getIndex sz))"
    using live_grid [OF assms(1) l(1)] by blast
  have "a < p + csize (unat (getIndex sz))"
    using l(3) size_le_csize [OF s(1)] by linarith
  then have "p = a"
    using grid_separate [OF assms(2) s(2) s'(1) s(3) s'(2) l(2)] by simp
  then show False
    using live_not_node [OF assms(1) l(1)] n by blast
qed

lemma inv_written:
  assumes "inv_with T C G st live"
    and "(\<exists>p sz. (p, sz) \<in> live \<and> p \<le> a \<and> a < p + unat sz) \<or> \<not> mapped st a"
  shows "inv_with T C G (st\<lparr>mem := (mem st)(a := v)\<rparr>) live"
proof -
  have b: "blocks_ok T C G live" and s: "spans_ok G st" and c: "chains_ok T C st"
    using assms(1) by (simp_all add: inv_with_def)
  have n: "\<And>j. a \<notin> set (T j) \<and> a \<notin> set (C j)"
    using client_write_not_node [OF b s assms(2)] by blast
  have "chains_ok T C (st\<lparr>mem := (mem st)(a := v)\<rparr>)"
    using c n by (simp add: chains_ok_def chain_frame)
  moreover have "spans_ok G (st\<lparr>mem := (mem st)(a := v)\<rparr>)"
    using s spans_ok_cong [of "st\<lparr>mem := (mem st)(a := v)\<rparr>" st G] by simp
  ultimately show ?thesis
    using b by (simp add: inv_with_def)
qed

lemma inv_start: "inv_with (\<lambda>i. []) (\<lambda>i. []) {} (init_allocator m) {}"
  by (simp add: inv_with_def chains_ok_def blocks_ok_def spans_ok_def init_allocator_def
      init_pageCache_def)

section \<open>Taking a block from the thread list\<close>

lemma blocks_ok_rearrange:
  assumes "blocks_ok T C G live"
    and sub: "\<And>i x. x \<in> set (T' i) \<union> set (C' i) \<Longrightarrow>
               x \<in> set (T i) \<union> set (C i) \<or> (\<exists>sz. (x, sz) \<in> live \<and> unat (getIndex sz) = i)"
    and dis: "\<And>i. set (T' i) \<inter> set (C' i) = {}"
    and lv: "\<And>p sz. (p, sz) \<in> live' \<Longrightarrow>
               (p, sz) \<in> live \<or>
               (sz \<le> MAX_BYTES \<and> p \<in> set (T (unat (getIndex sz))) \<union> set (C (unat (getIndex sz))))"
    and nn: "\<And>p sz i. (p, sz) \<in> live' \<Longrightarrow> p \<notin> set (T' i) \<union> set (C' i)"
    and un: "\<And>p sz sz'. (p, sz) \<in> live' \<Longrightarrow> (p, sz') \<in> live' \<Longrightarrow> sz' = sz"
  shows "blocks_ok T' C' G live'"
proof -
  have g: "\<exists>s. (s, i) \<in> G \<and> x \<in> grid s i" if "x \<in> set (T' i) \<union> set (C' i)" for i x
  proof -
    from sub [OF that] show ?thesis
    proof
      assume "x \<in> set (T i) \<union> set (C i)"
      then show ?thesis
        using node_grid [OF assms(1)] by blast
    next
      assume "\<exists>sz. (x, sz) \<in> live \<and> unat (getIndex sz) = i"
      then show ?thesis
        using live_grid [OF assms(1)] by blast
    qed
  qed
  have l: "sz \<le> MAX_BYTES \<and>
           (\<exists>s. (s, unat (getIndex sz)) \<in> G \<and> p \<in> grid s (unat (getIndex sz)))"
    if "(p, sz) \<in> live'" for p sz
  proof -
    from lv [OF that] show ?thesis
    proof
      assume "(p, sz) \<in> live"
      then show ?thesis
        using live_grid [OF assms(1)] by blast
    next
      assume "sz \<le> MAX_BYTES \<and> p \<in> set (T (unat (getIndex sz))) \<union> set (C (unat (getIndex sz)))"
      then show ?thesis
        using node_grid [OF assms(1)] by blast
    qed
  qed
  show ?thesis
    unfolding blocks_ok_def
  proof (intro conjI allI impI)
    fix i x assume "x \<in> set (T' i) \<union> set (C' i)"
    then show "\<exists>s. (s, i) \<in> G \<and> x \<in> grid s i" by (rule g)
  next
    fix i show "set (T' i) \<inter> set (C' i) = {}" by (rule dis)
  next
    fix p sz assume "(p, sz) \<in> live'"
    then show "sz \<le> MAX_BYTES" using l by blast
  next
    fix p sz assume "(p, sz) \<in> live'"
    then show "\<exists>s. (s, unat (getIndex sz)) \<in> G \<and> p \<in> grid s (unat (getIndex sz))"
      using l by blast
  next
    fix p sz i assume "(p, sz) \<in> live'"
    then show "p \<notin> set (T' i) \<union> set (C' i)" by (rule nn)
  next
    fix p sz sz' assume "(p, sz) \<in> live'" "(p, sz') \<in> live'"
    then show "sz' = sz" by (rule un)
  qed
qed

lemma chain_nil_head: "chain m 0 xs \<Longrightarrow> xs = []"
  by (cases xs) auto

lemma chain_nonempty: "chain m h xs \<Longrightarrow> h \<noteq> 0 \<Longrightarrow> \<exists>x ys. xs = x # ys \<and> h = x \<and> chain m (m x) ys"
  by (cases xs) auto

lemma allocate_eq:
  assumes "sz' = (if sz = 0 then ALIGNMENT else sz)" and "sz' \<le> MAX_BYTES"
    and "idx = getIndex (roundUp sz')" and "i = unat idx"
  shows "idx < FREE_LIST_SIZE"
    and "allocate st sz env =
           (if freeList st i \<noteq> 0
            then Inr (freeList st i,
                      st\<lparr>freeListSize := (freeListSize st)(i := freeListSize st i - 1),
                         freeList := (freeList st)(i := mem st (freeList st i))\<rparr>)
            else fetchFromCentralCache st idx env)"
proof -
  show lt: "idx < FREE_LIST_SIZE"
    unfolding assms(3) using assms(2) by (intro getIndex_roundUp_less MAX_BYTES_bound)
  have "\<not> MAX_BYTES < sz'"
    using assms(2) by simp
  then show "allocate st sz env =
           (if freeList st i \<noteq> 0
            then Inr (freeList st i,
                      st\<lparr>freeListSize := (freeListSize st)(i := freeListSize st i - 1),
                         freeList := (freeList st)(i := mem st (freeList st i))\<rparr>)
            else fetchFromCentralCache st idx env)"
    using lt unfolding allocate_def assms(1) [symmetric] Let_def assms(3) [symmetric] assms(4)
    by simp
qed

lemma inv_pop:
  assumes "inv_with T C G st live" and "sz' \<le> MAX_BYTES" and "i = unat (getIndex sz')"
    and "freeList st i \<noteq> 0"
    and "st' = st\<lparr>freeListSize := F, freeList := (freeList st)(i := mem st (freeList st i))\<rparr>"
  shows "8 dvd freeList st i \<and>
         inv_with (T(i := tl (T i))) C G st' (insert (freeList st i, sz') live)"
proof -
  have b: "blocks_ok T C G live" and s: "spans_ok G st" and c: "chains_ok T C st"
    using assms(1) by (simp_all add: inv_with_def)
  have ct: "chain (mem st) (freeList st i) (T i)"
    using c by (simp add: chains_ok_def)
  obtain x xs where t: "T i = x # xs" "freeList st i = x" "chain (mem st) (mem st x) xs"
    using chain_nonempty [OF ct assms(4)] by blast
  have xn: "x \<in> set (T i) \<union> set (C i)"
    using t by simp
  obtain gs where gs: "(gs, i) \<in> G" "x \<in> grid gs i"
    using node_grid [OF b xn] by blast
  have al: "8 dvd x"
    using node_mapped(3) [OF s gs] .
  have dist: "x \<notin> set xs"
    using chain_distinct [OF ct] t by simp
  have c': "chains_ok (T(i := tl (T i))) C st'"
    using c t by (simp add: chains_ok_def assms(5))
  have b': "blocks_ok (T(i := tl (T i))) C G (insert (x, sz') live)"
  proof (rule blocks_ok_rearrange [OF b])
    fix j y assume "y \<in> set ((T(i := tl (T i))) j) \<union> set (C j)"
    then show "y \<in> set (T j) \<union> set (C j) \<or> (\<exists>sz. (y, sz) \<in> live \<and> unat (getIndex sz) = j)"
      using t by (auto split: if_splits)
  next
    fix j show "set ((T(i := tl (T i))) j) \<inter> set (C j) = {}"
      using lists_disjoint [OF b] t by (auto split: if_splits)
  next
    fix p sz assume "(p, sz) \<in> insert (x, sz') live"
    then show "(p, sz) \<in> live \<or>
               (sz \<le> MAX_BYTES \<and> p \<in> set (T (unat (getIndex sz))) \<union> set (C (unat (getIndex sz))))"
      using assms(2,3) t by auto
  next
    fix p sz j assume l: "(p, sz) \<in> insert (x, sz') live"
    show "p \<notin> set ((T(i := tl (T i))) j) \<union> set (C j)"
    proof (cases "(p, sz) \<in> live")
      case True
      have "p \<notin> set (T j) \<and> p \<notin> set (C j)"
        using live_not_node [OF b True] .
      then show ?thesis
        using t by (cases "j = i") auto
    next
      case False
      then have p: "p = x" using l by simp
      show ?thesis
      proof (cases "j = i")
        case True
        then show ?thesis
          using p dist t lists_disjoint [OF b, of x i] by auto
      next
        case False
        have "x \<notin> set (T j) \<union> set (C j)"
          using node_class_unique [OF b s xn] False by blast
        then show ?thesis
          using p False by simp
      qed
    qed
  next
    fix p sz sz2 assume l: "(p, sz) \<in> insert (x, sz') live" "(p, sz2) \<in> insert (x, sz') live"
    have "\<And>z. (x, z) \<notin> live"
      using live_not_node [OF b, of x _ i] t by auto
    then show "sz2 = sz"
      using l live_unique [OF b] by auto
  qed
  have s': "spans_ok G st'"
    using s spans_ok_cong [of st' st G] by (simp add: assms(5))
  show ?thesis
    using al c' b' s' t by (simp add: inv_with_def)
qed

section \<open>Fetching from a non-empty central list\<close>

lemma chains_okD:
  assumes "chains_ok T C st"
  shows "chain (mem st) (freeList st i) (T i)" and "chain (mem st) (centralFreeList st i) (C i)"
  using assms by (simp_all add: chains_ok_def)

lemma batch_facts:
  assumes "idx < FREE_LIST_SIZE" and "i = unat idx"
  shows "\<exists>bn. getBatchNum ((idx + 1) * ALIGNMENT) = Inr bn \<and> bn \<noteq> 0 \<and>
           (1 < bn \<longrightarrow> 2 \<le> unat bn \<and> unat bn \<le> 32768 div csize i)"
proof -
  have u: "unat ((idx + 1) * ALIGNMENT) = csize i"
    using assms by (simp add: unat_class_csize)
  then have "(idx + 1) * ALIGNMENT \<noteq> 0"
    by (metis csize_pos less_numeral_extra(3) unat_0)
  then obtain bn where bn: "getBatchNum ((idx + 1) * ALIGNMENT) = Inr bn"
    "unat bn = spec_compute_batch (csize i)"
    using getBatchNum_spec [of "(idx + 1) * ALIGNMENT"] u by auto
  have b1: "1 \<le> unat bn"
    using bn(2) by (simp add: spec_compute_batch_def)
  then have nz: "bn \<noteq> 0"
    by (metis not_one_le_zero unat_0)
  have up: "unat bn \<le> 32768 div csize i" if "1 < bn"
  proof -
    have "1 < unat bn"
      using that by (simp add: word_less_nat_alt)
    then have "unat bn \<le> 4096 div csize i"
      using bn(2) by (simp add: spec_compute_batch_def CENTRAL_BATCH_MAX_BYTES_def max_def split: if_splits)
    also have "\<dots> \<le> 32768 div csize i"
      by (rule div_le_mono) simp
    finally show ?thesis .
  qed
  have "2 \<le> unat bn" if "1 < bn"
    using that by (simp add: word_less_nat_alt)
  then show ?thesis
    using bn(1) nz up by blast
qed

lemma fetchFromCentralCache_eq:
  assumes "getBatchNum ((idx + 1) * ALIGNMENT) = Inr bn"
    and "fetchRange st idx bn env = Inr (start, st1)"
  shows "fetchFromCentralCache st idx env =
           (if start = 0 then Inr (0, st1)
            else Inr (start,
                      st1\<lparr>freeListSize := (freeListSize st1)
                            (unat idx := freeListSize st1 (unat idx) + bn),
                          freeList := (if 1 < bn then (freeList st1)(unat idx := mem st1 start)
                                       else freeList st1)\<rparr>))"
  using assms by (simp add: fetchFromCentralCache_def Let_def)

lemma inv_fetch_existing:
  assumes "inv_with T C G st live" and "idx < FREE_LIST_SIZE" and "i = unat idx"
    and "freeList st i = 0" and "centralFreeList st i \<noteq> 0"
    and "sz' \<le> MAX_BYTES" and "unat (getIndex sz') = i"
  shows "\<exists>p st' T' C'. fetchFromCentralCache st idx env = Inr (p, st') \<and> p \<noteq> 0 \<and> 8 dvd p \<and>
           inv_with T' C' G st' (insert (p, sz') live) \<and>
           (\<forall>z. (p, z) \<notin> live) \<and> (\<forall>x z. (x, z) \<in> live \<longrightarrow> mem st' x = mem st x)"
proof -
  have b: "blocks_ok T C G live" and s: "spans_ok G st" and c: "chains_ok T C st"
    using assms(1) by (simp_all add: inv_with_def)
  define ys where "ys = C i"
  have cy: "chain (mem st) (centralFreeList st i) ys"
    using chains_okD(2) [OF c] by (simp add: ys_def)
  have ne: "ys \<noteq> []"
    using cy assms(5) by (cases ys) auto
  have ti: "T i = []"
    using chains_okD(1) [OF c, of i] assms(4) chain_nil_head [of "mem st" "T i"] by simp
  obtain bn where bn: "getBatchNum ((idx + 1) * ALIGNMENT) = Inr bn" "bn \<noteq> 0"
    using batch_facts [OF assms(2,3)] by blast
  define k where "k = min (unat bn) (length ys)"
  define m1 where "m1 = (mem st)(ys ! (k - 1) := 0)"
  define st1 where "st1 = st\<lparr>mem := m1, centralFreeList := (centralFreeList st)(i := hd0 (drop k ys))\<rparr>"
  have cy': "chain (mem st) (centralFreeList st (unat idx)) ys"
    using cy assms(3) by simp
  have fr: "fetchRange st idx bn env = Inr (hd0 ys, st1)"
    using fetchRange_existing(1) [OF assms(2) bn(2) cy' ne k_def, of env]
    by (simp add: st1_def m1_def assms(3))
  have c1: "chain m1 (hd0 ys) (take k ys)"
    using fetchRange_existing(2) [OF assms(2) bn(2) cy' ne k_def] by (simp add: m1_def)
  have c2: "chain m1 (hd0 (drop k ys)) (drop k ys)"
    using fetchRange_existing(3) [OF assms(2) bn(2) cy' ne k_def] by (simp add: m1_def)
  have k1: "0 < k" "k \<le> length ys"
    using bn(2) ne by (simp_all add: k_def unat_gt_0)
  obtain y zs where yz: "ys = y # zs"
    using ne by (cases ys) auto
  have h0: "hd0 ys = y" "y \<noteq> 0"
    using yz cy by simp_all
  have tk: "take k ys = y # tl (take k ys)"
    using k1 yz by (cases k) simp_all
  have c3: "chain m1 (m1 y) (tl (take k ys))"
    using c1 tk h0 by (metis chain.simps(2))
  define st' where "st' = st1\<lparr>freeListSize := (freeListSize st1)
                            (unat idx := freeListSize st1 (unat idx) + bn),
                          freeList := (if 1 < bn then (freeList st1)(unat idx := mem st1 y)
                                       else freeList st1)\<rparr>"
  have res: "fetchFromCentralCache st idx env = Inr (y, st')"
    using fetchFromCentralCache_eq [OF bn(1) fr] h0 by (simp add: st'_def)
  define T' where "T' = T(i := tl (take k ys))"
  define C' where "C' = C(i := drop k ys)"
  have dist: "distinct ys"
    using cy by (rule chain_distinct)
  have w: "ys ! (k - 1) \<in> set (C i)"
    using k1 by (simp add: ys_def [symmetric])
  have wn: "ys ! (k - 1) \<notin> set (T j)" "j \<noteq> i \<Longrightarrow> ys ! (k - 1) \<notin> set (C j)" for j
  proof -
    show "ys ! (k - 1) \<notin> set (T j)"
    proof (cases "j = i")
      case True
      then show ?thesis using ti by simp
    next
      case False
      then show ?thesis
        using node_class_unique [OF b s, of "ys ! (k - 1)" i j] w by blast
    qed
    show "j \<noteq> i \<Longrightarrow> ys ! (k - 1) \<notin> set (C j)"
      using node_class_unique [OF b s, of "ys ! (k - 1)" i j] w by blast
  qed
  have one: "1 < bn \<or> tl (take k ys) = []"
  proof (cases "1 < bn")
    case True
    then show ?thesis by simp
  next
    case False
    then have "unat bn \<le> 1"
      by (simp add: word_less_nat_alt)
    moreover have "0 < length ys"
      using ne by simp
    ultimately have "k = 1"
      using k1 unfolding k_def by linarith
    then show ?thesis
      using yz by simp
  qed
  have c': "chains_ok T' C' st'"
    unfolding chains_ok_def
  proof (intro conjI allI)
    fix j
    show "chain (mem st') (freeList st' j) (T' j)"
    proof (cases "j = i")
      case True
      show ?thesis
      proof (cases "1 < bn")
        case b1: True
        then show ?thesis
          using c3 True by (simp add: st'_def st1_def T'_def assms(3))
      next
        case b1: False
        then have "tl (take k ys) = []"
          using one by simp
        then show ?thesis
          using b1 True assms(4) by (simp add: st'_def st1_def T'_def)
      qed
    next
      case False
      have "chain (mem st) (freeList st j) (T j)"
        using chains_okD(1) [OF c] .
      then have "chain m1 (freeList st j) (T j)"
        using wn(1) [of j] by (simp add: m1_def chain_frame)
      then show ?thesis
        using False by (simp add: st'_def st1_def T'_def assms(3))
    qed
  next
    fix j
    show "chain (mem st') (centralFreeList st' j) (C' j)"
    proof (cases "j = i")
      case True
      then show ?thesis
        using c2 by (simp add: st'_def st1_def C'_def)
    next
      case False
      have "chain (mem st) (centralFreeList st j) (C j)"
        using chains_okD(2) [OF c] .
      then have "chain m1 (centralFreeList st j) (C j)"
        using wn(2) [OF False] by (simp add: m1_def chain_frame)
      then show ?thesis
        using False by (simp add: st'_def st1_def C'_def)
    qed
  qed
  have yn: "y \<in> set (T i) \<union> set (C i)"
    using yz by (simp add: ys_def [symmetric])
  have parts: "set (tl (take k ys)) \<subseteq> set ys" "set (drop k ys) \<subseteq> set ys"
    "y \<notin> set (tl (take k ys))" "y \<notin> set (drop k ys)"
    "set (tl (take k ys)) \<inter> set (drop k ys) = {}"
  proof -
    have d: "distinct (take k ys @ drop k ys)"
      using dist by simp
    show "set (tl (take k ys)) \<subseteq> set ys"
      by (metis list.set_sel(2) set_take_subset subsetD subsetI tl_Nil)
    show "set (drop k ys) \<subseteq> set ys"
      by (rule set_drop_subset)
    have d2: "distinct (y # tl (take k ys) @ drop k ys)"
      using d tk by (metis append_Cons)
    show "y \<notin> set (tl (take k ys))" "y \<notin> set (drop k ys)"
      "set (tl (take k ys)) \<inter> set (drop k ys) = {}"
      using d2 by auto
  qed
  have b': "blocks_ok T' C' G (insert (y, sz') live)"
  proof (rule blocks_ok_rearrange [OF b])
    fix j x assume "x \<in> set (T' j) \<union> set (C' j)"
    then show "x \<in> set (T j) \<union> set (C j) \<or> (\<exists>sz. (x, sz) \<in> live \<and> unat (getIndex sz) = j)"
      using parts(1,2) by (auto simp: T'_def C'_def ys_def [symmetric] split: if_splits)
  next
    fix j show "set (T' j) \<inter> set (C' j) = {}"
      using lists_disjoint [OF b] parts(5) by (auto simp: T'_def C'_def split: if_splits)
  next
    fix p sz assume "(p, sz) \<in> insert (y, sz') live"
    then show "(p, sz) \<in> live \<or>
               (sz \<le> MAX_BYTES \<and> p \<in> set (T (unat (getIndex sz))) \<union> set (C (unat (getIndex sz))))"
      using assms(6,7) yn by auto
  next
    fix p sz j assume l: "(p, sz) \<in> insert (y, sz') live"
    show "p \<notin> set (T' j) \<union> set (C' j)"
    proof (cases "(p, sz) \<in> live")
      case True
      have "p \<notin> set (T j) \<and> p \<notin> set (C j)" "p \<notin> set (C i)"
        using live_not_node [OF b True] by simp_all
      then show ?thesis
        using parts(1,2) by (cases "j = i") (auto simp: T'_def C'_def ys_def [symmetric])
    next
      case False
      then have p: "p = y" using l by simp
      show ?thesis
      proof (cases "j = i")
        case True
        then show ?thesis
          using p parts(3,4) by (simp add: T'_def C'_def)
      next
        case False
        have "y \<notin> set (T j) \<union> set (C j)"
          using node_class_unique [OF b s yn] False by blast
        then show ?thesis
          using p False by (simp add: T'_def C'_def)
      qed
    qed
  next
    fix p sz sz2 assume l: "(p, sz) \<in> insert (y, sz') live" "(p, sz2) \<in> insert (y, sz') live"
    have "\<And>z. (y, z) \<notin> live"
      using live_not_node [OF b, of y _ i] yn ti by auto
    then show "sz2 = sz"
      using l live_unique [OF b] by auto
  qed
  have s': "spans_ok G st'"
    using s spans_ok_cong [of st' st G] by (simp add: st'_def st1_def)
  obtain gs where gs: "(gs, i) \<in> G" "y \<in> grid gs i"
    using node_grid [OF b yn] by blast
  have al: "8 dvd y"
    using node_mapped(3) [OF s gs] .
  have fresh: "\<forall>z. (y, z) \<notin> live"
    using live_not_node [OF b, of y _ i] yn ti by auto
  have frame: "\<forall>x z. (x, z) \<in> live \<longrightarrow> mem st' x = mem st x"
  proof (intro allI impI)
    fix x z assume "(x, z) \<in> live"
    then have "x \<notin> set (C i)"
      using live_not_node [OF b, of x z i] by simp
    then have "x \<noteq> ys ! (k - 1)"
      using w by blast
    then show "mem st' x = mem st x"
      by (simp add: st'_def st1_def m1_def)
  qed
  have "inv_with T' C' G st' (insert (y, sz') live)"
    using c' b' s' unfolding inv_with_def by blast
  then show ?thesis
    using res h0 al fresh frame by blast
qed

section \<open>Fetching from a new span\<close>

lemma fetchFromPageCache_fail:
  assumes "freeSpans (pageCache st) = []"
    and "mmap env (unat (requestedPages sz * PAGE_SIZE)) = None"
  shows "fetchFromPageCache st sz env = Inr (0, st)"
  using assms by (simp add: fetchFromPageCache_def allocateSpan_def systemAlloc_def Let_def)

lemma fetch_fail:
  assumes "idx < FREE_LIST_SIZE" and "centralFreeList st (unat idx) = 0"
    and "freeSpans (pageCache st) = []"
    and "mmap env (unat (requestedPages ((idx + 1) * ALIGNMENT) * PAGE_SIZE)) = None"
  shows "fetchFromCentralCache st idx env = Inr (0, st)"
proof -
  obtain bn where bn: "getBatchNum ((idx + 1) * ALIGNMENT) = Inr bn" "bn \<noteq> 0"
    using batch_facts [OF assms(1) refl] by blast
  have "fetchRange st idx bn env = Inr (0, st)"
    using assms(1,2) bn(2) fetchFromPageCache_fail [OF assms(3,4)]
    by (simp add: fetchRange_def Let_def)
  then show ?thesis
    using fetchFromCentralCache_eq [OF bn(1)] by simp
qed

lemma rsize_request:
  "idx < FREE_LIST_SIZE \<Longrightarrow>
     unat (requestedPages ((idx + 1) * ALIGNMENT) * PAGE_SIZE) = rsize (unat idx)"
  by (simp add: rsize_def of_nat_csize)

lemma rsize_pos: "i < 32768 \<Longrightarrow> 0 < rsize i"
  using nblocks_fit [of i] nblocks_pos [of i] csize_pos [of i]
  by (metis less_le_trans mult_pos_pos)

lemma blocks_tl: "0 < n \<Longrightarrow> blocks s c 0 n = s # blocks s c 1 n"
  using blocks_Cons [of 0 n s c] by simp

lemma inv_fetch_fresh:
  assumes "inv_with T C G st live" and "good_os st env"
    and "idx < FREE_LIST_SIZE" and "i = unat idx"
    and "freeList st i = 0" and "centralFreeList st i = 0"
    and "sz' \<le> MAX_BYTES" and "unat (getIndex sz') = i"
    and "mmap env (rsize i) = Some start"
  shows "\<exists>st' T' C' G'. fetchFromCentralCache st idx env = Inr (start, st') \<and>
           start \<noteq> 0 \<and> 8 dvd start \<and>
           inv_with T' C' G' st' (insert (start, sz') live) \<and>
           (\<forall>z. (start, z) \<notin> live) \<and> (\<forall>x z. (x, z) \<in> live \<longrightarrow> mem st' x = mem st x)"
proof -
  have b: "blocks_ok T C G live" and s: "spans_ok G st" and c: "chains_ok T C st"
    using assms(1) by (simp_all add: inv_with_def)
  have i: "i < 32768"
    using assms(3,4) by (simp add: index_bound)
  define sz where "sz = (idx + 1) * ALIGNMENT"
  define cs where "cs = csize i"
  define t where "t = 32768 div cs"
  have us: "cs = (unat idx + 1) * 8"
    by (simp add: cs_def csize_def assms(4))
  have rq: "unat (requestedPages sz * PAGE_SIZE) = rsize i"
    using rsize_request [OF assms(3)] by (simp add: sz_def assms(4))
  have os: "start \<noteq> 0" "4096 dvd start" "\<And>a. start \<le> a \<Longrightarrow> a < start + rsize i \<Longrightarrow> \<not> mapped st a"
    using assms(2,9) unfolding good_os_def by blast+
  have al: "8 dvd start"
    using os(2) by (rule dvd_trans [of 8 4096, rotated]) simp
  have fs: "freeSpans (pageCache st) = []"
    using s by (simp add: spans_ok_def)
  have fr: "\<And>sp. nextSpan (pageCache st) \<le> sp \<Longrightarrow> spans (pageCache st) sp = None"
    using s by (simp add: spans_ok_def)
  define pc' where "pc' = (pageCache st)
                     \<lparr>spanMap := (spanMap (pageCache st))(start \<mapsto> nextSpan (pageCache st)),
                      spans := (spans (pageCache st))
                        (nextSpan (pageCache st) \<mapsto>
                           \<lparr>pageAddr = start, numPages = requestedPages sz, nxt = 0\<rparr>),
                      nextSpan := Suc (nextSpan (pageCache st))\<rparr>"
  define st1 where "st1 = st\<lparr>mem := memset_zero (mem st) start (rsize i), pageCache := pc'\<rparr>"
  have f1: "fetchFromPageCache st sz env = Inr (start, st1)"
    using fetchFromPageCache_os [of st sz env start] fs assms(9) os(1) rq
    by (simp add: st1_def pc'_def)
  obtain bn where bn: "getBatchNum sz = Inr bn" "bn \<noteq> 0"
    "1 < bn \<longrightarrow> 2 \<le> unat bn \<and> unat bn \<le> t"
    using batch_facts [OF assms(3,4)] unfolding sz_def t_def cs_def by blast
  define a where "a = min (unat bn) t"
  have c0: "centralFreeList st (unat idx) = 0"
    using assms(4,6) by simp
  obtain st2 where st2: "fetchRange st idx bn env = Inr (start, st2)"
    "freeList st2 = freeList st" "freeListSize st2 = freeListSize st"
    "pageCache st2 = pc'"
    "centralFreeList st2 = (centralFreeList st)(i := if a < t then start + a * cs else 0)"
    "2 \<le> a \<longrightarrow> chain (mem st2) start (blocks start cs 0 a)"
    "a < t \<longrightarrow> chain (mem st2) (start + a * cs) (blocks start cs a t)"
    "\<And>x. x \<notin> set (blocks start cs 0 t) \<Longrightarrow> mem st2 x = mem st1 x"
    using fetchRange_fresh [OF assms(3) bn(2) c0 f1 [unfolded sz_def] os(1) us t_def a_def]
    by (auto simp: st1_def assms(4))
  define st' where "st' = st2\<lparr>freeListSize := (freeListSize st2)
                            (unat idx := freeListSize st2 (unat idx) + bn),
                          freeList := (if 1 < bn then (freeList st2)(unat idx := mem st2 start)
                                       else freeList st2)\<rparr>"
  have res: "fetchFromCentralCache st idx env = Inr (start, st')"
    using fetchFromCentralCache_eq [OF bn(1) [unfolded sz_def] st2(1)] os(1)
    by (simp add: st'_def)
  define N1 where "N1 = (if 1 < bn then blocks start cs 1 a else [])"
  define N2 where "N2 = (if a < t then blocks start cs a t else [])"
  define T' where "T' = T(i := N1)"
  define C' where "C' = C(i := N2)"
  define G' where "G' = insert (start, i) G"
  have tn: "t \<le> nblocks i"
    by (simp add: t_def cs_def nblocks_def)
  have at: "a \<le> t"
    by (simp add: a_def)
  have ingrid: "x \<in> grid start i" if "x \<in> set (blocks start cs k n)" "n \<le> t" for x k n
    using blocks_in_grid [of n i x start k] that tn by (simp add: cs_def)
  have fresh: "\<not> mapped st x" if "x \<in> grid start i" for x
  proof -
    have "start \<le> x" "x + csize i \<le> start + rsize i"
      using grid_bounds [OF i that] by simp_all
    moreover have "0 < csize i"
      by simp
    ultimately show ?thesis
      using os(3) [of x] by linarith
  qed
  have old_mapped: "mapped st x" if xin: "x \<in> set (T j) \<union> set (C j)" for x j
  proof -
    obtain gs where "(gs, j) \<in> G" "x \<in> grid gs j"
      using node_grid [OF b xin] by blast
    then show ?thesis
      using node_mapped(1) [OF s] by blast
  qed
  have live_mapped: "mapped st p" if pin: "(p, z) \<in> live" for p z
  proof -
    obtain gs where "(gs, unat (getIndex z)) \<in> G" "p \<in> grid gs (unat (getIndex z))"
      using live_grid [OF b pin] by blast
    then show ?thesis
      using node_mapped(1) [OF s] by blast
  qed
  have keep: "mem st2 x = mem st x" if "mapped st x" for x
  proof -
    have ng: "x \<notin> grid start i"
      using fresh that by blast
    then have "x \<notin> set (blocks start cs 0 t)"
      using ingrid [of x 0 t] by blast
    then have "mem st2 x = mem st1 x"
      by (rule st2(8))
    moreover have "\<not> (start \<le> x \<and> x < start + rsize i)"
      using os(3) that by blast
    ultimately show ?thesis
      by (simp add: st1_def memset_zero_def)
  qed
  have ti: "T i = []" and ci: "C i = []"
    using chains_okD [OF c, of i] assms(5,6) chain_nil_head by auto
  have c': "chains_ok T' C' st'"
    unfolding chains_ok_def
  proof (intro conjI allI)
    fix j
    show "chain (mem st') (freeList st' j) (T' j)"
    proof (cases "j = i")
      case True
      show ?thesis
      proof (cases "1 < bn")
        case b1: True
        then have a2: "2 \<le> a"
          using bn(3) by (simp add: a_def)
        then have "chain (mem st2) start (start # blocks start cs 1 a)"
          using st2(6) blocks_tl [of a start cs] by simp
        then have "chain (mem st2) (mem st2 start) (blocks start cs 1 a)"
          by simp
        then show ?thesis
          using b1 True by (simp add: st'_def T'_def N1_def assms(4))
      next
        case b1: False
        then show ?thesis
          using True assms(5) st2(2) by (simp add: st'_def T'_def N1_def)
      qed
    next
      case False
      have "chain (mem st) (freeList st j) (T j)"
        using chains_okD(1) [OF c] .
      then have "chain (mem st2) (freeList st j) (T j)"
        using keep old_mapped [of _ j] by (intro chain_cong_set [of "T j" "mem st2" "mem st"]) auto
      then show ?thesis
        using False st2(2) by (simp add: st'_def T'_def assms(4))
    qed
  next
    fix j
    show "chain (mem st') (centralFreeList st' j) (C' j)"
    proof (cases "j = i")
      case True
      then show ?thesis
        using st2(5,7) by (simp add: st'_def C'_def N2_def)
    next
      case False
      have "chain (mem st) (centralFreeList st j) (C j)"
        using chains_okD(2) [OF c] .
      then have "chain (mem st2) (centralFreeList st j) (C j)"
        using keep old_mapped [of _ j] by (intro chain_cong_set [of "C j" "mem st2" "mem st"]) auto
      then show ?thesis
        using False st2(5) by (simp add: st'_def C'_def)
    qed
  qed
  have n1: "set N1 \<subseteq> grid start i" and n2: "set N2 \<subseteq> grid start i"
    using ingrid [of _ 1 a] ingrid [of _ a t] at by (auto simp: N1_def N2_def)
  have cs0: "0 < cs"
    by (simp add: cs_def)
  have sn1: "start \<notin> set N1"
    using cs0 by (auto simp: N1_def set_blocks)
  have sn2: "start \<notin> set N2"
  proof (cases "a < t")
    case True
    then have "0 < a"
      using bn(2) by (simp add: a_def unat_gt_0)
    then show ?thesis
      using cs0 by (auto simp: N2_def set_blocks)
  next
    case False
    then show ?thesis by (simp add: N2_def)
  qed
  have n12: "set N1 \<inter> set N2 = {}"
    using cs0 by (auto simp: N1_def N2_def set_blocks)
  have b': "blocks_ok T' C' G' (insert (start, sz') live)"
    unfolding blocks_ok_def
  proof (intro conjI allI impI)
    fix j x assume x: "x \<in> set (T' j) \<union> set (C' j)"
    show "\<exists>gs. (gs, j) \<in> G' \<and> x \<in> grid gs j"
    proof (cases "j = i")
      case True
      then have "x \<in> grid start i"
        using x n1 n2 by (auto simp: T'_def C'_def)
      then show ?thesis
        using True by (auto simp: G'_def)
    next
      case False
      then have "x \<in> set (T j) \<union> set (C j)"
        using x by (simp add: T'_def C'_def)
      then show ?thesis
        using node_grid [OF b] by (auto simp: G'_def)
    qed
  next
    fix j show "set (T' j) \<inter> set (C' j) = {}"
      using lists_disjoint [OF b] n12 by (auto simp: T'_def C'_def)
  next
    fix p z assume "(p, z) \<in> insert (start, sz') live"
    then show "z \<le> MAX_BYTES"
      using assms(7) live_grid [OF b] by auto
  next
    fix p z assume "(p, z) \<in> insert (start, sz') live"
    then show "\<exists>gs. (gs, unat (getIndex z)) \<in> G' \<and> p \<in> grid gs (unat (getIndex z))"
      using assms(8) live_grid [OF b] grid_start [of start i] by (auto simp: G'_def)
  next
    fix p z j assume l: "(p, z) \<in> insert (start, sz') live"
    show "p \<notin> set (T' j) \<union> set (C' j)"
    proof (cases "(p, z) \<in> live")
      case True
      have "p \<notin> grid start i"
        using fresh live_mapped [OF True] by blast
      moreover have "p \<notin> set (T j) \<and> p \<notin> set (C j)"
        using live_not_node [OF b True] .
      ultimately show ?thesis
        using n1 n2 by (auto simp: T'_def C'_def)
    next
      case False
      then have p: "p = start" using l by simp
      have "start \<notin> set (T j) \<union> set (C j)"
        using old_mapped [of start j] fresh [OF grid_start] by blast
      then show ?thesis
        using p sn1 sn2 by (auto simp: T'_def C'_def)
    qed
  next
    fix p z z2 assume l: "(p, z) \<in> insert (start, sz') live" "(p, z2) \<in> insert (start, sz') live"
    have "\<And>z. (start, z) \<notin> live"
      using live_mapped fresh [OF grid_start] by blast
    then show "z2 = z"
      using l live_unique [OF b] by auto
  qed
  have sp': "spans (pageCache st') = (spans (pageCache st))
                        (nextSpan (pageCache st) \<mapsto>
                           \<lparr>pageAddr = start, numPages = requestedPages sz, nxt = 0\<rparr>)"
    "freeSpans (pageCache st') = []" "nextSpan (pageCache st') = Suc (nextSpan (pageCache st))"
    using st2(4) fs by (simp_all add: st'_def pc'_def)
  have m_old: "mapped st' x" if mx: "mapped st x" for x
  proof -
    obtain sp span where sp: "spans (pageCache st) sp = Some span" "pageAddr span \<le> x"
      "x < pageAddr span + unat (numPages span * PAGE_SIZE)"
      using mx unfolding mapped_def by blast
    have "sp \<noteq> nextSpan (pageCache st)"
      using sp(1) fr [of "nextSpan (pageCache st)"] by auto
    then have "spans (pageCache st') sp = Some span"
      using sp(1) sp'(1) by simp
    then show ?thesis
      using sp(2,3) unfolding mapped_def by blast
  qed
  have m_new: "mapped st' x" if "start \<le> x" "x < start + rsize i" for x
    unfolding mapped_def
    using that sp'(1) rq
    by (intro exI [of _ "nextSpan (pageCache st)"]
        exI [of _ "\<lparr>pageAddr = start, numPages = requestedPages sz, nxt = 0\<rparr>"]) simp
  have ri: "0 < rsize i"
    using i by (rule rsize_pos)
  have apart: "start + rsize i \<le> gs \<or> gs + rsize j \<le> start" if "(gs, j) \<in> G" for gs j
  proof (rule ccontr)
    assume n: "\<not> (start + rsize i \<le> gs \<or> gs + rsize j \<le> start)"
    have rj: "0 < rsize j"
      using span_facts(1) [OF s that] by (rule rsize_pos)
    define x where "x = max start gs"
    have "start \<le> x" "x < start + rsize i" "gs \<le> x" "x < gs + rsize j"
      using n ri rj by (auto simp: x_def)
    then show False
      using os(3) [of x] span_facts(4) [OF s that, of x] by blast
  qed
  have s': "spans_ok G' st'"
    unfolding spans_ok_def
  proof (intro conjI allI impI)
    fix gs j assume g: "(gs, j) \<in> G'"
    show "j < 32768"
      using g i span_facts(1) [OF s] by (auto simp: G'_def)
    show "0 < gs"
      using g os(1) span_facts(2) [OF s] by (auto simp: G'_def)
    show "8 dvd gs"
      using g al span_facts(3) [OF s] by (auto simp: G'_def)
  next
    fix gs j x assume g: "(gs, j) \<in> G'" and x: "gs \<le> x \<and> x < gs + rsize j"
    show "mapped st' x"
    proof (cases "(gs, j) = (start, i)")
      case True
      then show ?thesis using x m_new by simp
    next
      case False
      then have "(gs, j) \<in> G" using g by (auto simp: G'_def)
      then show ?thesis
        using span_facts(4) [OF s _ , of gs j x] x m_old by blast
    qed
  next
    fix gs j gs2 j2 assume g: "(gs, j) \<in> G'" and g2: "(gs2, j2) \<in> G' \<and> (gs2, j2) \<noteq> (gs, j)"
    show "gs + rsize j \<le> gs2 \<or> gs2 + rsize j2 \<le> gs"
    proof (cases "(gs, j) = (start, i)")
      case True
      then have "(gs2, j2) \<in> G" using g2 by (auto simp: G'_def)
      then show ?thesis
        using apart True by auto
    next
      case False
      then have in1: "(gs, j) \<in> G" using g by (auto simp: G'_def)
      show ?thesis
      proof (cases "(gs2, j2) = (start, i)")
        case True
        then show ?thesis
          using apart [OF in1] by auto
      next
        case False
        then have "(gs2, j2) \<in> G" using g2 by (auto simp: G'_def)
        then show ?thesis
          using span_facts(5) [OF s in1] g2 by blast
      qed
    qed
  next
    show "freeSpans (pageCache st') = []"
      by (rule sp'(2))
  next
    fix sp assume "nextSpan (pageCache st') \<le> sp"
    then show "spans (pageCache st') sp = None"
      using sp'(1,3) fr [of sp] by simp
  qed
  have nl: "\<forall>z. (start, z) \<notin> live"
    using live_mapped fresh [OF grid_start] by blast
  have frame: "\<forall>x z. (x, z) \<in> live \<longrightarrow> mem st' x = mem st x"
  proof (intro allI impI)
    fix x z assume "(x, z) \<in> live"
    then have "mem st2 x = mem st x"
      using keep live_mapped by blast
    then show "mem st' x = mem st x"
      by (simp add: st'_def)
  qed
  have "inv_with T' C' G' st' (insert (start, sz') live)"
    using c' b' s' unfolding inv_with_def by blast
  then show ?thesis
    using res os(1) al nl frame by blast
qed

section \<open>Rearranging the lists of one size class\<close>

lemma find_end_chain:
  assumes "chain m h xs"
  shows "j < length xs \<Longrightarrow>
           find_end m (xs ! j) c bound = xs ! min (j + (bound - c)) (length xs - 1)"
proof (induction "bound - c" arbitrary: j c)
  case 0
  then have "min (j + (bound - c)) (length xs - 1) = j"
    by simp
  moreover have "find_end m (xs ! j) c bound = xs ! j"
    using 0 find_end.simps [of m "xs ! j" c bound] by simp
  ultimately show ?case by simp
next
  case (Suc d)
  have lt: "c < bound"
    using Suc.hyps(2) by simp
  have nx: "m (xs ! j) = (if Suc j < length xs then xs ! Suc j else 0)"
    using chain_nth [OF assms Suc.prems] by simp
  show ?case
  proof (cases "Suc j < length xs")
    case True
    have "xs ! Suc j \<noteq> 0"
      using chain_nth [OF assms True] by simp
    then have "find_end m (xs ! j) c bound = find_end m (xs ! Suc j) (Suc c) bound"
      using find_end.simps [of m "xs ! j" c bound] nx True lt by simp
    also have "\<dots> = xs ! min (Suc j + (bound - Suc c)) (length xs - 1)"
      using Suc.hyps(2) by (intro Suc.hyps(1) True) simp
    also have "Suc j + (bound - Suc c) = j + (bound - c)"
      using lt by simp
    finally show ?thesis .
  next
    case False
    then have "find_end m (xs ! j) c bound = xs ! j"
      using find_end.simps [of m "xs ! j" c bound] nx by simp
    moreover have "min (j + (bound - c)) (length xs - 1) = j"
      using False Suc.prems by simp
    ultimately show ?thesis by simp
  qed
qed

lemma chain_splice:
  "chain m h (xs @ a # zs) \<Longrightarrow> chain m c ys \<Longrightarrow> a \<notin> set xs \<Longrightarrow> a \<notin> set ys \<Longrightarrow>
     chain (m(a := c)) h (xs @ a # ys)"
proof (induction xs arbitrary: h)
  case Nil
  have 1: "chain (m(a := c)) c ys"
    using Nil(2,4) chain_frame [of a ys m c c] by simp
  from Nil(1) have h: "h = a" "a \<noteq> 0"
    by simp_all
  show ?case
    unfolding append_Nil h(1) chain.simps(2) fun_upd_same using h(2) 1 by blast
next
  case (Cons x xs)
  then show ?case by auto
qed

lemma inv_relist:
  assumes inv: "inv_with T C G st live"
    and pc: "pageCache st' = pageCache st"
    and ca: "chain (mem st') (freeList st' i) A"
    and cb: "chain (mem st') (centralFreeList st' i) B"
    and sub: "\<And>x. x \<in> set A \<union> set B \<Longrightarrow>
                x \<in> set (T i) \<union> set (C i) \<or>
                (\<exists>sz. (x, sz) \<in> live \<and> (x, sz) \<notin> live' \<and> unat (getIndex sz) = i)"
    and dis: "set A \<inter> set B = {}"
    and lv: "live' \<subseteq> live"
    and heads: "\<And>j. j \<noteq> i \<Longrightarrow>
                  freeList st' j = freeList st j \<and> centralFreeList st' j = centralFreeList st j"
    and frame: "\<And>x. x \<notin> set A \<union> set B \<Longrightarrow> mem st' x = mem st x"
  shows "inv_with (T(i := A)) (C(i := B)) G st' live'"
proof -
  have b: "blocks_ok T C G live" and s: "spans_ok G st" and c: "chains_ok T C st"
    using inv by (simp_all add: inv_with_def)
  have other: "x \<notin> set A \<union> set B" if j: "j \<noteq> i" and x: "x \<in> set (T j) \<union> set (C j)" for x j
  proof
    assume "x \<in> set A \<union> set B"
    from sub [OF this] show False
    proof
      assume "x \<in> set (T i) \<union> set (C i)"
      then show False
        using node_class_unique [OF b s x] j by blast
    next
      assume "\<exists>sz. (x, sz) \<in> live \<and> (x, sz) \<notin> live' \<and> unat (getIndex sz) = i"
      then show False
        using live_not_node [OF b, of x _ j] x by blast
    qed
  qed
  have c': "chains_ok (T(i := A)) (C(i := B)) st'"
    unfolding chains_ok_def
  proof (intro conjI allI)
    fix j
    show "chain (mem st') (freeList st' j) ((T(i := A)) j)"
    proof (cases "j = i")
      case True
      then show ?thesis using ca by simp
    next
      case False
      have "chain (mem st') (freeList st j) (T j)"
      proof (rule chain_cong_set [OF _ chains_okD(1) [OF c]])
        fix x assume "x \<in> set (T j)"
        then show "mem st' x = mem st x"
          using other [OF False, of x] frame by blast
      qed
      then show ?thesis
        using False heads by simp
    qed
  next
    fix j
    show "chain (mem st') (centralFreeList st' j) ((C(i := B)) j)"
    proof (cases "j = i")
      case True
      then show ?thesis using cb by simp
    next
      case False
      have "chain (mem st') (centralFreeList st j) (C j)"
      proof (rule chain_cong_set [OF _ chains_okD(2) [OF c]])
        fix x assume "x \<in> set (C j)"
        then show "mem st' x = mem st x"
          using other [OF False, of x] frame by blast
      qed
      then show ?thesis
        using False heads by simp
    qed
  qed
  have b': "blocks_ok (T(i := A)) (C(i := B)) G live'"
  proof (rule blocks_ok_rearrange [OF b])
    fix j x assume x: "x \<in> set ((T(i := A)) j) \<union> set ((C(i := B)) j)"
    show "x \<in> set (T j) \<union> set (C j) \<or> (\<exists>sz. (x, sz) \<in> live \<and> unat (getIndex sz) = j)"
    proof (cases "j = i")
      case True
      then have "x \<in> set A \<union> set B" using x by simp
      from sub [OF this] show ?thesis using True by blast
    next
      case False
      then show ?thesis using x by simp
    qed
  next
    fix j show "set ((T(i := A)) j) \<inter> set ((C(i := B)) j) = {}"
      using dis lists_disjoint [OF b, of _ j] by (cases "j = i") auto
  next
    fix p sz assume "(p, sz) \<in> live'"
    then show "(p, sz) \<in> live \<or>
       sz \<le> MAX_BYTES \<and> p \<in> set (T (unat (getIndex sz))) \<union> set (C (unat (getIndex sz)))"
      using lv by blast
  next
    fix p sz j assume l: "(p, sz) \<in> live'"
    then have l0: "(p, sz) \<in> live" using lv by blast
    have old: "p \<notin> set (T k) \<union> set (C k)" for k
      using live_not_node [OF b l0, of k] by blast
    have "p \<notin> set A \<union> set B"
    proof
      assume "p \<in> set A \<union> set B"
      from sub [OF this] show False
      proof
        assume "p \<in> set (T i) \<union> set (C i)"
        then show False using old by blast
      next
        assume "\<exists>z. (p, z) \<in> live \<and> (p, z) \<notin> live' \<and> unat (getIndex z) = i"
        then obtain z where z: "(p, z) \<in> live" "(p, z) \<notin> live'" by blast
        then have "z = sz"
          using live_unique [OF b l0 z(1)] by simp
        then show False using z(2) l by simp
      qed
    qed
    then show "p \<notin> set ((T(i := A)) j) \<union> set ((C(i := B)) j)"
      using old [of j] by (cases "j = i") simp_all
  next
    fix p sz sz2 assume "(p, sz) \<in> live'" "(p, sz2) \<in> live'"
    then show "sz2 = sz"
      using lv live_unique [OF b, of p sz sz2] by blast
  qed
  have "spans_ok G st'"
    using spans_ok_cong [OF pc, of G] s by simp
  then show ?thesis
    using c' b' by (simp add: inv_with_def)
qed

section \<open>Giving a block back\<close>

lemma returnRange_chain:
  assumes "chain (mem st) h rest" and "rest \<noteq> []" and "idx < FREE_LIST_SIZE"
    and "chain (mem st) (centralFreeList st (unat idx)) ys" and "set rest \<inter> set ys = {}"
  shows "\<exists>r. r < length rest \<and>
           returnRange st h bound idx =
             st\<lparr>mem := (mem st)(rest ! r := centralFreeList st (unat idx)),
                centralFreeList := (centralFreeList st)(unat idx := h)\<rparr> \<and>
           chain ((mem st)(rest ! r := centralFreeList st (unat idx))) h (take (Suc r) rest @ ys)"
proof -
  define r where "r = min (unat bound - 1) (length rest - 1)"
  have "0 < length rest"
    using assms(2) by simp
  then have r: "r < length rest"
    unfolding r_def by linarith
  have h: "h = rest ! 0" "h \<noteq> 0"
    using assms(1,2) by (cases rest; simp)+
  have e: "find_end (mem st) h 1 (unat bound) = rest ! r"
    using find_end_chain [OF assms(1), of 0 1 "unat bound"] assms(2) h(1) by (simp add: r_def)
  have rr: "returnRange st h bound idx =
             st\<lparr>mem := (mem st)(rest ! r := centralFreeList st (unat idx)),
                centralFreeList := (centralFreeList st)(unat idx := h)\<rparr>"
    using h(2) assms(3) e by (simp add: returnRange_def Let_def)
  have sp: "rest = take r rest @ rest ! r # drop (Suc r) rest"
    using r by (rule id_take_nth_drop)
  have d: "distinct rest"
    using assms(1) by (rule chain_distinct)
  have n1: "rest ! r \<notin> set (take r rest)"
    using d sp by (metis distinct_append distinct.simps(2) disjoint_iff list.set_intros(1))
  have n2: "rest ! r \<notin> set ys"
    using assms(5) r by (meson disjoint_iff nth_mem)
  have c1: "chain (mem st) h (take r rest @ rest ! r # drop (Suc r) rest)"
    using assms(1) sp by simp
  have "chain ((mem st)(rest ! r := centralFreeList st (unat idx))) h
          (take r rest @ rest ! r # ys)"
    using c1 assms(4) n1 n2 by (rule chain_splice)
  moreover have "take (Suc r) rest = take r rest @ [rest ! r]"
    using r by (rule take_Suc_conv_app_nth)
  ultimately have "chain ((mem st)(rest ! r := centralFreeList st (unat idx))) h
          (take (Suc r) rest @ ys)"
    by simp
  then show ?thesis
    using r rr by blast
qed

lemma inv_push:
  assumes inv: "inv_with T C G st live" and l: "(p, sz) \<in> live"
    and i: "i = unat (getIndex sz)"
    and st': "st' = st\<lparr>mem := (mem st)(p := freeList st i),
                       freeList := (freeList st)(i := p),
                       freeListSize := F\<rparr>"
  shows "inv_with (T(i := p # T i)) C G st' (live - {(p, sz)})" and "p \<noteq> 0"
proof -
  have b: "blocks_ok T C G live" and s: "spans_ok G st" and c: "chains_ok T C st"
    using inv by (simp_all add: inv_with_def)
  obtain gs where gs: "(gs, i) \<in> G" "p \<in> grid gs i"
    using live_grid [OF b l] i by blast
  show p0: "p \<noteq> 0"
    using node_mapped(2) [OF s gs] by simp
  have nn: "p \<notin> set (T j)" "p \<notin> set (C j)" for j
    using live_not_node [OF b l, of j] by simp_all
  have ca: "chain (mem st') (freeList st' i) (p # T i)"
    using chains_okD(1) [OF c, of i] p0 nn(1) [of i] by (simp add: st' chain_frame)
  have cb: "chain (mem st') (centralFreeList st' i) (C i)"
    using chains_okD(2) [OF c, of i] nn(2) [of i] by (simp add: st' chain_frame)
  have "inv_with (T(i := p # T i)) (C(i := C i)) G st' (live - {(p, sz)})"
  proof (rule inv_relist [OF inv _ ca cb])
    show "pageCache st' = pageCache st"
      by (simp add: st')
    show "x \<in> set (T i) \<union> set (C i) \<or>
       (\<exists>z. (x, z) \<in> live \<and> (x, z) \<notin> live - {(p, sz)} \<and> unat (getIndex z) = i)"
      if "x \<in> set (p # T i) \<union> set (C i)" for x
      using that l i by auto
    show "set (p # T i) \<inter> set (C i) = {}"
      using nn(2) [of i] lists_disjoint [OF b, of _ i] by auto
    show "live - {(p, sz)} \<subseteq> live"
      by blast
    show "freeList st' j = freeList st j \<and> centralFreeList st' j = centralFreeList st j"
      if "j \<noteq> i" for j
      using that by (simp add: st')
    show "mem st' x = mem st x" if "x \<notin> set (p # T i) \<union> set (C i)" for x
      using that by (simp add: st')
  qed
  then show "inv_with (T(i := p # T i)) C G st' (live - {(p, sz)})"
    by simp
qed

section \<open>Spilling preserves the invariant\<close>

lemma inv_spill:
  assumes inv: "inv_with T C G st live" and sz: "sz \<le> MAX_BYTES"
    and i: "i = unat (getIndex sz)" and n1: "1 < freeListSize st i" and ne: "T i \<noteq> []"
  shows "\<exists>st'. returnToCentralCache st (freeList st i) sz = Inr st' \<and> invariant st' live \<and>
           (\<forall>x z. (x, z) \<in> live \<longrightarrow> mem st' x = mem st x)"
proof -
  have b: "blocks_ok T C G live" and s: "spans_ok G st" and c: "chains_ok T C st"
    using inv by (simp_all add: inv_with_def)
  have gi: "getIndex sz < FREE_LIST_SIZE"
    using sz by (intro getIndex_less MAX_BYTES_bound)
  define n where "n = freeListSize st i"
  define keep where "keep = max (n div 4) 1"
  define k where "k = unat keep"
  define xs where "xs = T i"
  define start where "start = freeList st i"
  have ch: "chain (mem st) start xs"
    using chains_okD(1) [OF c, of i] by (simp add: xs_def start_def)
  have cc: "chain (mem st) (centralFreeList st i) (C i)"
    using chains_okD(2) [OF c, of i] .
  have xne: "xs \<noteq> []"
    using ne by (simp add: xs_def)
  have nolive: "x \<notin> set xs" if "(x, z) \<in> live" for x z
    using live_not_node [OF b that, of i] by (simp add: xs_def)
  have n1': "1 < n"
    using n1 by (simp add: n_def)
  have k1: "1 \<le> k"
    using keepNum_facts(1) [OF n1' keep_def] by (simp add: k_def)
  note spill = returnToCentralCache_spill [OF gi i n_def n1' keep_def ch xne, folded k_def]
  show ?thesis
  proof (cases "k \<le> length xs")
    case False
    then have "returnToCentralCache st start sz = Inr st"
      using spill(2) by simp
    then show ?thesis
      using inv unfolding invariant_def start_def by blast
  next
    case True
    define a where "a = xs ! (k - 1)"
    define rest where "rest = drop k xs"
    define st1 where "st1 = st\<lparr>mem := (mem st)(a := 0),
                              freeList := (freeList st)(i := start),
                              freeListSize := (freeListSize st)(i := keep)\<rparr>"
    have rt: "returnToCentralCache st start sz =
                Inr (if rest = [] then st1
                     else returnRange st1 (hd0 rest) ((n - keep) * roundUp sz) (getIndex sz))"
      using spill(1) [OF True] by (simp add: Let_def st1_def a_def rest_def)
    have kl: "k - 1 < length xs"
      using True k1 by simp
    have sp: "xs = take (k - 1) xs @ a # rest"
      using id_take_nth_drop [OF kl] k1 by (simp add: a_def rest_def)
    have tk: "take k xs = take (k - 1) xs @ [a]"
      using take_Suc_conv_app_nth [OF kl] k1 by (simp add: a_def)
    have c0: "chain (mem st) start (take (k - 1) xs @ a # rest)"
      using ch sp by simp
    have c1: "chain (mem st1) start (take k xs)"
      using chain_cut(1) [OF c0] by (simp add: st1_def tk)
    have c2: "chain (mem st1) (mem st a) rest"
      using chain_cut(2) [OF c0] by (simp add: st1_def)
    have d: "distinct xs"
      using ch by (rule chain_distinct)
    have dj: "set (take k xs) \<inter> set rest = {}"
      using d append_take_drop_id [of k xs] unfolding rest_def
      by (metis distinct_append)
    have ax: "a \<in> set (take k xs)"
      by (simp add: tk)
    have xc: "set xs \<inter> set (C i) = {}"
      using lists_disjoint [OF b, of _ i] by (auto simp: xs_def)
    have sub1: "set (take k xs) \<subseteq> set xs" and sub2: "set rest \<subseteq> set xs"
      by (simp_all add: set_take_subset rest_def set_drop_subset)
    have ac: "a \<notin> set (C i)"
      using ax sub1 xc by blast
    have c3: "chain (mem st1) (centralFreeList st1 i) (C i)"
      using cc ac by (simp add: st1_def chain_frame)
    show ?thesis
    proof (cases "rest = []")
      case True
      have "inv_with (T(i := take k xs)) (C(i := C i)) G st1 live"
      proof (rule inv_relist [OF inv])
        show "pageCache st1 = pageCache st"
          by (simp add: st1_def)
        show "chain (mem st1) (freeList st1 i) (take k xs)"
          using c1 by (simp add: st1_def)
        show "chain (mem st1) (centralFreeList st1 i) (C i)"
          by (rule c3)
        show "x \<in> set (T i) \<union> set (C i) \<or>
           (\<exists>z. (x, z) \<in> live \<and> (x, z) \<notin> live \<and> unat (getIndex z) = i)"
          if "x \<in> set (take k xs) \<union> set (C i)" for x
          using that sub1 by (auto simp: xs_def)
        show "set (take k xs) \<inter> set (C i) = {}"
          using sub1 xc by blast
        show "live \<subseteq> live"
          by simp
        show "freeList st1 j = freeList st j \<and> centralFreeList st1 j = centralFreeList st j"
          if "j \<noteq> i" for j
          using that by (simp add: st1_def)
        show "mem st1 x = mem st x" if "x \<notin> set (take k xs) \<union> set (C i)" for x
          using that ax by (auto simp: st1_def)
      qed
      moreover have "\<forall>x z. (x, z) \<in> live \<longrightarrow> mem st1 x = mem st x"
      proof (intro allI impI)
        fix x z assume "(x, z) \<in> live"
        then have "x \<noteq> a"
          using nolive ax sub1 by blast
        then show "mem st1 x = mem st x"
          by (simp add: st1_def)
      qed
      moreover have "returnToCentralCache st start sz = Inr st1"
        using rt True by simp
      ultimately show ?thesis
        unfolding invariant_def start_def by blast
    next
      case False
      have ii: "unat (getIndex sz) = i"
        using i by simp
      have h: "mem st a = hd0 rest"
        using c2 by (rule chain_hd0)
      have c2': "chain (mem st1) (hd0 rest) rest"
        using c2 h by simp
      have rc: "set rest \<inter> set (C i) = {}"
        using sub2 xc by blast
      obtain r where r: "r < length rest"
        "returnRange st1 (hd0 rest) ((n - keep) * roundUp sz) (getIndex sz) =
           st1\<lparr>mem := (mem st1)(rest ! r := centralFreeList st1 i),
               centralFreeList := (centralFreeList st1)(i := hd0 rest)\<rparr>"
        "chain ((mem st1)(rest ! r := centralFreeList st1 i)) (hd0 rest)
           (take (Suc r) rest @ C i)"
        using returnRange_chain [OF c2' False gi, of "C i" "(n - keep) * roundUp sz"] c3 rc
        unfolding ii by blast
      define e where "e = rest ! r"
      define st2 where "st2 = st1\<lparr>mem := (mem st1)(e := centralFreeList st1 i),
               centralFreeList := (centralFreeList st1)(i := hd0 rest)\<rparr>"
      have er: "e \<in> set (take (Suc r) rest)"
        using r(1) by (simp add: e_def take_Suc_conv_app_nth)
      have sub3: "set (take (Suc r) rest) \<subseteq> set rest"
        by (rule set_take_subset)
      have et: "e \<notin> set (take k xs)"
        using er sub3 dj by blast
      have "inv_with (T(i := take k xs)) (C(i := take (Suc r) rest @ C i)) G st2 live"
      proof (rule inv_relist [OF inv])
        show "pageCache st2 = pageCache st"
          by (simp add: st2_def st1_def)
        have "chain ((mem st1)(e := centralFreeList st1 i)) start (take k xs)"
          using c1 et by (simp add: chain_frame)
        then show "chain (mem st2) (freeList st2 i) (take k xs)"
          by (simp add: st2_def st1_def)
        show "chain (mem st2) (centralFreeList st2 i) (take (Suc r) rest @ C i)"
          using r(3) by (simp add: st2_def e_def)
        show "x \<in> set (T i) \<union> set (C i) \<or>
           (\<exists>z. (x, z) \<in> live \<and> (x, z) \<notin> live \<and> unat (getIndex z) = i)"
          if "x \<in> set (take k xs) \<union> set (take (Suc r) rest @ C i)" for x
          using that sub1 sub2 sub3 by (auto simp: xs_def)
        show "set (take k xs) \<inter> set (take (Suc r) rest @ C i) = {}"
          using sub1 sub3 xc dj by auto
        show "live \<subseteq> live"
          by simp
        show "freeList st2 j = freeList st j \<and> centralFreeList st2 j = centralFreeList st j"
          if "j \<noteq> i" for j
          using that by (simp add: st2_def st1_def)
        show "mem st2 x = mem st x"
          if "x \<notin> set (take k xs) \<union> set (take (Suc r) rest @ C i)" for x
        proof -
          have "x \<noteq> a" "x \<noteq> e"
            using that ax er by auto
          then show ?thesis
            by (simp add: st2_def st1_def)
        qed
      qed
      moreover have "returnToCentralCache st start sz = Inr st2"
        using rt False r(2) by (simp add: st2_def e_def)
      moreover have "\<forall>x z. (x, z) \<in> live \<longrightarrow> mem st2 x = mem st x"
      proof (intro allI impI)
        fix x z assume "(x, z) \<in> live"
        then have "x \<noteq> a" "x \<noteq> e"
          using nolive ax sub1 er sub3 sub2 by blast+
        then show "mem st2 x = mem st x"
          by (simp add: st2_def st1_def)
      qed
      ultimately show ?thesis
        unfolding invariant_def start_def by blast
    qed
  qed
qed

lemma inv_dealloc:
  assumes inv: "inv_with T C G st live" and l: "(p, sz) \<in> live"
    and arg: "sz = (if arg = 0 then ALIGNMENT else arg)"
  shows "\<exists>st'. deallocate st p arg = Inr st' \<and> invariant st' (live - {(p, sz)}) \<and>
           (\<forall>x z. (x, z) \<in> live - {(p, sz)} \<longrightarrow> mem st' x = mem st x)"
proof -
  have b: "blocks_ok T C G live"
    using inv by (simp add: inv_with_def)
  have sz: "sz \<le> MAX_BYTES"
    using live_grid [OF b l] by simp
  have am: "arg \<le> MAX_BYTES"
    using sz arg by (cases "arg = 0") simp_all
  have gi: "getIndex arg = getIndex sz"
    using arg by (cases "arg = 0") (simp_all add: getIndex_def)
  define i where "i = unat (getIndex sz)"
  have ia: "i = unat (getIndex arg)"
    by (simp add: i_def gi)
  define pushed where "pushed = st\<lparr>mem := (mem st)(p := freeList st i),
                      freeList := (freeList st)(i := p),
                      freeListSize := (freeListSize st)(i := freeListSize st i + 1)\<rparr>"
  note push = inv_push [OF inv l i_def pushed_def]
  have d: "deallocate st p arg =
           (if 64 < freeListSize st i + 1 then returnToCentralCache pushed p arg else Inr pushed)"
    using am push(2) ia pushed_def by (rule deallocate_push)
  have pf: "mem pushed x = mem st x" if "(x, z) \<in> live - {(p, sz)}" for x z
  proof -
    have "x \<noteq> p"
      using that live_unique [OF b l, of z] by auto
    then show ?thesis
      by (simp add: pushed_def)
  qed
  show ?thesis
  proof (cases "64 < freeListSize st i + 1")
    case False
    then show ?thesis
      using d push(1) pf unfolding invariant_def by auto
  next
    case True
    have n1: "1 < freeListSize pushed i"
    proof -
      have "(1::size_t) < 64"
        by simp
      then have "1 < freeListSize st i + 1"
        using True by (rule less_trans)
      then show ?thesis
        by (simp add: pushed_def)
    qed
    have ne: "(T(i := p # T i)) i \<noteq> []"
      by simp
    have fl: "freeList pushed i = p"
      by (simp add: pushed_def)
    obtain st' where st': "returnToCentralCache pushed p arg = Inr st'"
      "invariant st' (live - {(p, sz)})"
      "\<forall>x z. (x, z) \<in> live - {(p, sz)} \<longrightarrow> mem st' x = mem pushed x"
      using inv_spill [OF push(1) am ia n1 ne] unfolding fl by blast
    have "\<forall>x z. (x, z) \<in> live - {(p, sz)} \<longrightarrow> mem st' x = mem st x"
      using st'(3) pf by simp
    then show ?thesis
      using st'(1,2) d True by simp
  qed
qed

section \<open>Allocation preserves the invariant\<close>

lemma allocate_inv:
  assumes inv: "inv_with T C G st live" and os: "good_os st env"
    and sz': "sz' = (if sz = 0 then ALIGNMENT else sz)" and le: "sz' \<le> MAX_BYTES"
  shows "\<exists>p st'. allocate st sz env = Inr (p, st') \<and> 8 dvd p \<and>
           invariant st' (if p \<noteq> 0 then insert (p, sz') live else live) \<and>
           (\<forall>z. p \<noteq> 0 \<longrightarrow> (p, z) \<notin> live) \<and>
           (\<forall>x z. (x, z) \<in> live \<longrightarrow> mem st' x = mem st x)"
proof -
  define idx where "idx = getIndex (roundUp sz')"
  define i where "i = unat idx"
  have al: "idx < FREE_LIST_SIZE"
    "allocate st sz env =
           (if freeList st i \<noteq> 0
            then Inr (freeList st i,
                      st\<lparr>freeListSize := (freeListSize st)(i := freeListSize st i - 1),
                         freeList := (freeList st)(i := mem st (freeList st i))\<rparr>)
            else fetchFromCentralCache st idx env)"
    using allocate_eq(1) [OF sz' le idx_def i_def] allocate_eq(2) [OF sz' le idx_def i_def]
    by blast+
  have gi: "getIndex sz' = idx"
    using getIndex_roundUp [OF le] by (simp add: idx_def)
  have ii: "i = unat (getIndex sz')" "unat (getIndex sz') = i"
    using gi by (simp_all add: i_def)
  show ?thesis
  proof (cases "freeList st i \<noteq> 0")
    case True
    define st' where "st' = st\<lparr>freeListSize := (freeListSize st)(i := freeListSize st i - 1),
                         freeList := (freeList st)(i := mem st (freeList st i))\<rparr>"
    have "allocate st sz env = Inr (freeList st i, st')"
      using al(2) True by (simp add: st'_def)
    moreover have "8 dvd freeList st i"
      "inv_with (T(i := tl (T i))) C G st' (insert (freeList st i, sz') live)"
      using inv_pop [OF inv le ii(1) True st'_def] by simp_all
    moreover have "\<forall>z. (freeList st i, z) \<notin> live"
    proof -
      have "chain (mem st) (freeList st i) (T i)"
        using inv by (simp add: inv_with_def chains_ok_def)
      then have "freeList st i \<in> set (T i)"
        using True by (cases "T i") auto
      moreover have "blocks_ok T C G live"
        using inv by (simp add: inv_with_def)
      ultimately show ?thesis
        using live_not_node [of T C G live "freeList st i" _ i] by blast
    qed
    moreover have "mem st' = mem st"
      by (simp add: st'_def)
    ultimately show ?thesis
      using True unfolding invariant_def by auto
  next
    case False
    then have f0: "freeList st i = 0"
      by simp
    have a: "allocate st sz env = fetchFromCentralCache st idx env"
      using al(2) f0 by simp
    show ?thesis
    proof (cases "centralFreeList st i = 0")
      case False
      obtain p st' T' C' where "fetchFromCentralCache st idx env = Inr (p, st')" "p \<noteq> 0"
        "8 dvd p" "inv_with T' C' G st' (insert (p, sz') live)"
        "\<forall>z. (p, z) \<notin> live" "\<forall>x z. (x, z) \<in> live \<longrightarrow> mem st' x = mem st x"
        using inv_fetch_existing [OF inv al(1) i_def f0 False le ii(2)] by blast
      then show ?thesis
        using a unfolding invariant_def by auto
    next
      case c0: True
      show ?thesis
      proof (cases "mmap env (rsize i)")
        case None
        have fs: "freeSpans (pageCache st) = []"
          using inv by (simp add: inv_with_def spans_ok_def)
        have "fetchFromCentralCache st idx env = Inr (0, st)"
          using al(1) c0 fs None rsize_request [OF al(1)]
          by (intro fetch_fail) (simp_all add: i_def)
        then show ?thesis
          using a inv unfolding invariant_def by auto
      next
        case (Some start)
        obtain st' T' C' G' where "fetchFromCentralCache st idx env = Inr (start, st')"
          "start \<noteq> 0" "8 dvd start" "inv_with T' C' G' st' (insert (start, sz') live)"
          "\<forall>z. (start, z) \<notin> live" "\<forall>x z. (x, z) \<in> live \<longrightarrow> mem st' x = mem st x"
          using inv_fetch_fresh [OF inv os al(1) i_def f0 c0 le ii(2) Some] by blast
        then show ?thesis
          using a unfolding invariant_def by auto
      qed
    qed
  qed
qed

section \<open>From one thread to all threads\<close>

lemma class_size:
  assumes "i < 32768"
  shows "(of_nat (csize i) :: size_t) \<le> MAX_BYTES"
    and "unat (getIndex (of_nat (csize i))) = i"
proof -
  have c: "csize i \<le> 262144"
    using assms by (simp add: csize_def)
  then have u: "unat (of_nat (csize i) :: size_t) = csize i"
    by (simp add: unat_of_nat)
  show "(of_nat (csize i) :: size_t) \<le> MAX_BYTES"
    using c u by (simp add: word_le_nat_alt MAX_BYTES_def)
  have "unat (getIndex (of_nat (csize i))) = (max (csize i) 8 + 7) div 8 - 1"
    using unat_getIndex [of "of_nat (csize i)"] c u by simp
  then show "unat (getIndex (of_nat (csize i))) = i"
    by (simp add: csize_def max_def)
qed

lemma as_thread_simps [simp]:
  "mem (as_thread tc t st) = mem st"
  "freeList (as_thread tc t st) = fst (tc t)"
  "freeListSize (as_thread tc t st) = snd (tc t)"
  "centralFreeList (as_thread tc t st) = centralFreeList st"
  "pageCache (as_thread tc t st) = pageCache st"
  by (simp_all add: as_thread_def)

lemma as_thread_own: "as_thread (tc(t := cache_of st)) t st = st"
  by (simp add: as_thread_def cache_of_def)

lemma as_thread_other:
  "u \<noteq> t \<Longrightarrow> as_thread (tc(t := c)) u st = as_thread tc u st"
  by (simp add: as_thread_def)

lemma as_thread_twice: "as_thread tc u (as_thread tc' t st) = as_thread tc u st"
  by (simp add: as_thread_def)

lemma frozen_own: "frozen (S(t := T')) t = frozen S t"
  by (auto simp: frozen_def)

lemma frozenI: "u \<noteq> t \<Longrightarrow> x \<in> set (S u i) \<Longrightarrow> (x, of_nat (csize i)) \<in> frozen S t"
  by (auto simp: frozen_def)

lemma lift_step:
  assumes old: "\<And>v. inv_with (S v) C G (as_thread tc v st) (live \<union> frozen S v)"
    and new: "inv_with T' C' G' st' (live' \<union> frozen S t)"
    and frame: "\<And>x z. (x, z) \<in> frozen S t \<Longrightarrow> mem st' x = mem st x"
    and lv: "\<And>q z. (q, z) \<in> live' \<Longrightarrow> (q, z) \<in> live \<or> (\<forall>z'. (q, z') \<notin> frozen S t)"
  shows "inv_with ((S(t := T')) u) C' G' (as_thread (tc(t := cache_of st')) u st')
           (live' \<union> frozen (S(t := T')) u)"
proof (cases "u = t")
  case True
  then show ?thesis
    using new by (simp add: as_thread_own frozen_own)
next
  case False
  have b: "blocks_ok T' C' G' (live' \<union> frozen S t)" and s: "spans_ok G' st'"
    and c: "chains_ok T' C' st'"
    using new by (simp_all add: inv_with_def)
  have ob: "blocks_ok (S v) C G (live \<union> frozen S v)" and os: "spans_ok G (as_thread tc v st)"
    and oc: "chains_ok (S v) C (as_thread tc v st)" for v
    using old [of v] by (simp_all add: inv_with_def)
  have f1: "i < 32768" if xv: "x \<in> set (S v i)" for x v i
  proof -
    obtain gs where "(gs, i) \<in> G"
      using node_grid [OF ob [of v], of x i] xv by blast
    then show ?thesis
      using span_facts(1) [OF os [of v]] by blast
  qed
  have f2: "x \<notin> set (S w j)" if "v \<noteq> w" "x \<in> set (S v i)" for x v w i j
    using live_not_node [OF ob [of w], of x "of_nat (csize i)" j] frozenI [where S = S, OF that] by blast
  have f3: "q \<notin> set (S v j)" if "(q, z) \<in> live" for q z v j
    using live_not_node [OF ob [of v], of q z j] that by blast
  have f4: "q \<notin> set (S u j)" if l: "(q, z) \<in> live'" for q z j
  proof
    assume q: "q \<in> set (S u j)"
    from lv [OF l] show False
    proof
      assume "(q, z) \<in> live"
      then show False using f3 q by blast
    next
      assume "\<forall>z'. (q, z') \<notin> frozen S t"
      then show False using frozenI [where S = S, OF False q] by blast
    qed
  qed
  have f5: "x \<notin> set (T' i)" if "v \<noteq> t" "x \<in> set (S v j)" for x v i j
    using live_not_node [OF b, of x "of_nat (csize j)" i] frozenI [where S = S, OF that] by blast
  have in_new: "(x, of_nat (csize i)) \<in> live' \<union> frozen S t" if "v \<noteq> t" "x \<in> set (S v i)"
    for x v i
    using frozenI [where S = S, OF that] by blast
  have t_class: "i < 32768" if xt: "x \<in> set (T' i)" for x i
  proof -
    obtain gs where "(gs, i) \<in> G'"
      using node_grid [OF b, of x i] xt by blast
    then show ?thesis
      using span_facts(1) [OF s] by blast
  qed
  have split: "(q, z) \<in> live' \<union> frozen S t \<or> (\<exists>i. q \<in> set (T' i) \<and> z = of_nat (csize i))"
    if h0: "(q, z) \<in> live' \<union> frozen (S(t := T')) u" for q z
  proof (cases "(q, z) \<in> live'")
    case True
    then show ?thesis by blast
  next
    case False
    then obtain v i where v: "v \<noteq> u" "q \<in> set ((S(t := T')) v i)" "z = of_nat (csize i)"
      using h0 by (auto simp: frozen_def)
    show ?thesis
    proof (cases "v = t")
      case True
      then show ?thesis using v by auto
    next
      case False
      then show ?thesis using v in_new [OF False, of q i] by auto
    qed
  qed
  have held_old: "z \<le> MAX_BYTES \<and>
      (\<exists>gs. (gs, unat (getIndex z)) \<in> G' \<and> q \<in> grid gs (unat (getIndex z))) \<and>
      (\<forall>j. q \<notin> set (T' j) \<union> set (C' j))"
    if "(q, z) \<in> live' \<union> frozen S t" for q z
    using live_grid [OF b that] live_not_node [OF b that] by blast
  have held_new: "z \<le> MAX_BYTES \<and>
      (\<exists>gs. (gs, unat (getIndex z)) \<in> G' \<and> q \<in> grid gs (unat (getIndex z))) \<and>
      (\<forall>j. q \<notin> set (C' j))"
    if q: "q \<in> set (T' i)" and z: "z = of_nat (csize i)" for q z i
  proof -
    have i: "i < 32768"
      using q by (rule t_class)
    have "\<exists>gs. (gs, i) \<in> G' \<and> q \<in> grid gs i"
      using node_grid [OF b, of q i] q by blast
    moreover have "q \<notin> set (C' j)" for j
    proof
      assume "q \<in> set (C' j)"
      then have "i = j"
        using node_class_unique [OF b s, of q i j] q by blast
      then show False
        using lists_disjoint [OF b q] \<open>q \<in> set (C' j)\<close> by blast
    qed
    ultimately show ?thesis
      using class_size [OF i] z by simp
  qed
  have not_u: "q \<notin> set (S u j)" if h0: "(q, z) \<in> live' \<union> frozen (S(t := T')) u" for q z j
  proof (cases "(q, z) \<in> live'")
    case True
    then show ?thesis by (rule f4)
  next
    case False
    then obtain v i where v: "v \<noteq> u" "q \<in> set ((S(t := T')) v i)"
      using h0 by (auto simp: frozen_def)
    show ?thesis
    proof (cases "v = t")
      case True
      then have "q \<in> set (T' i)" using v by simp
      then show ?thesis
        using f5 [OF \<open>u \<noteq> t\<close>, of q j i] by blast
    next
      case False
      then have "q \<in> set (S v i)" using v by simp
      then show ?thesis
        using f2 [OF v(1)] by blast
    qed
  qed
  have b': "blocks_ok (S u) C' G' (live' \<union> frozen (S(t := T')) u)"
    unfolding blocks_ok_def
  proof (intro conjI allI impI)
    fix i x assume x: "x \<in> set (S u i) \<union> set (C' i)"
    show "\<exists>gs. (gs, i) \<in> G' \<and> x \<in> grid gs i"
    proof (cases "x \<in> set (C' i)")
      case True
      then show ?thesis using node_grid [OF b, of x i] by blast
    next
      case False
      then have xs: "x \<in> set (S u i)" using x by simp
      have "\<exists>gs. (gs, unat (getIndex (of_nat (csize i)))) \<in> G' \<and>
                 x \<in> grid gs (unat (getIndex (of_nat (csize i))))"
        using live_grid [OF b in_new [OF \<open>u \<noteq> t\<close> xs]] by blast
      then show ?thesis
        using class_size(2) [OF f1 [OF xs]] by simp
    qed
  next
    fix i show "set (S u i) \<inter> set (C' i) = {}"
      using live_not_node [OF b in_new [OF \<open>u \<noteq> t\<close>], of _ i i] by blast
  next
    fix q z assume h: "(q, z) \<in> live' \<union> frozen (S(t := T')) u"
    from split [OF h] show "z \<le> MAX_BYTES"
      using held_old held_new by blast
  next
    fix q z assume h: "(q, z) \<in> live' \<union> frozen (S(t := T')) u"
    from split [OF h]
    show "\<exists>gs. (gs, unat (getIndex z)) \<in> G' \<and> q \<in> grid gs (unat (getIndex z))"
      using held_old held_new by blast
  next
    fix q z j assume h: "(q, z) \<in> live' \<union> frozen (S(t := T')) u"
    have "q \<notin> set (C' j)"
      using split [OF h] held_old [of q z] held_new [of q _ z] by blast
    then show "q \<notin> set (S u j) \<union> set (C' j)"
      using not_u [OF h] by blast
  next
    fix q z z2 assume h: "(q, z) \<in> live' \<union> frozen (S(t := T')) u"
      and h2: "(q, z2) \<in> live' \<union> frozen (S(t := T')) u"
    from split [OF h] show "z2 = z"
    proof
      assume o: "(q, z) \<in> live' \<union> frozen S t"
      from split [OF h2] show ?thesis
      proof
        assume "(q, z2) \<in> live' \<union> frozen S t"
        then show ?thesis
          using live_unique [OF b o] by blast
      next
        assume "\<exists>i. q \<in> set (T' i) \<and> z2 = of_nat (csize i)"
        then show ?thesis
          using held_old [OF o] by blast
      qed
    next
      assume n: "\<exists>i. q \<in> set (T' i) \<and> z = of_nat (csize i)"
      then obtain i where i: "q \<in> set (T' i)" "z = of_nat (csize i)"
        by blast
      from split [OF h2] show ?thesis
      proof
        assume "(q, z2) \<in> live' \<union> frozen S t"
        then show ?thesis
          using held_old [of q z2] i(1) by blast
      next
        assume "\<exists>j. q \<in> set (T' j) \<and> z2 = of_nat (csize j)"
        then obtain j where j: "q \<in> set (T' j)" "z2 = of_nat (csize j)"
          by blast
        have "i = j"
          using node_class_unique [OF b s, of q i j] i(1) j(1) by blast
        then show ?thesis
          using i(2) j(2) by simp
      qed
    qed
  qed
  have c': "chains_ok (S u) C' (as_thread (tc(t := cache_of st')) u st')"
    unfolding chains_ok_def
  proof (intro conjI allI)
    fix i
    have "chain (mem st) (fst (tc u) i) (S u i)"
      using chains_okD(1) [OF oc [of u], of i] by simp
    then have "chain (mem st') (fst (tc u) i) (S u i)"
    proof (rule chain_cong_set [rotated])
      fix x assume "x \<in> set (S u i)"
      then show "mem st' x = mem st x"
        using frame frozenI [where S = S, OF \<open>u \<noteq> t\<close>] by blast
    qed
    then show "chain (mem (as_thread (tc(t := cache_of st')) u st'))
                 (freeList (as_thread (tc(t := cache_of st')) u st') i) (S u i)"
      using False by simp
  next
    fix i
    show "chain (mem (as_thread (tc(t := cache_of st')) u st'))
            (centralFreeList (as_thread (tc(t := cache_of st')) u st') i) (C' i)"
      using chains_okD(2) [OF c, of i] by simp
  qed
  have s': "spans_ok G' (as_thread (tc(t := cache_of st')) u st')"
    using s spans_ok_cong [of "as_thread (tc(t := cache_of st')) u st'" st' G'] by simp
  show ?thesis
    using False b' c' s' by (simp add: inv_with_def)
qed

section \<open>Every address handed out is aligned\<close>

lemma good_os_thread [simp]: "good_os (as_thread tc t st) env = good_os st env"
  using mapped_cong [of "as_thread tc t st" st] by (simp add: good_os_def)

lemma held_not_frozen:
  assumes "\<And>v. inv_with (S v) C G (as_thread tc v st) (live \<union> frozen S v)"
    and "(p, sz) \<in> live"
  shows "(p, z) \<notin> frozen S t"
proof
  assume "(p, z) \<in> frozen S t"
  then obtain u i where u: "p \<in> set (S u i)"
    by (auto simp: frozen_def)
  have "blocks_ok (S u) C G (live \<union> frozen S u)"
    using assms(1) [of u] by (simp add: inv_with_def)
  then show False
    using live_not_node [of "S u" C G "live \<union> frozen S u" p sz i] assms(2) u by blast
qed

lemma invariant_allI:
  assumes "\<And>t. inv_with (S t) C G (as_thread tc t st) (live \<union> frozen S t)"
  shows "invariant_all st tc live"
  unfolding invariant_all_def
proof (intro exI allI)
  fix t show "inv_with (S t) C G (as_thread tc t st) (live \<union> frozen S t)"
    by (rule assms)
qed

lemma reachable_invariant: "reachable st tc live \<Longrightarrow> invariant_all st tc live"
proof (induction rule: reachable.induct)
  case (start m)
  have "as_thread (\<lambda>t. (\<lambda>i. 0, \<lambda>i. 0)) t (init_allocator m) = init_allocator m" for t
    by (simp add: as_thread_def init_allocator_def)
  moreover have "frozen (\<lambda>t i. []) t = {}" for t
    by (simp add: frozen_def)
  ultimately have "inv_with ((\<lambda>t i. []) t) (\<lambda>i. []) {}
      (as_thread (\<lambda>t. (\<lambda>i. 0, \<lambda>i. 0)) t (init_allocator m)) ({} \<union> frozen (\<lambda>t i. []) t)" for t
    using inv_start [of m] by simp
  then show ?case
    by (rule invariant_allI [where S = "\<lambda>t i. []"])
next
  case (allocated st tc live env t sz p st' sz')
  obtain S C G where old: "\<And>v. inv_with (S v) C G (as_thread tc v st) (live \<union> frozen S v)"
    using allocated.IH unfolding invariant_all_def by blast
  have os: "good_os (as_thread tc t st) env"
    using allocated.hyps(2) by simp
  show ?case
  proof (cases "sz' \<le> MAX_BYTES")
    case True
    define live' where
      "live' = (if p \<noteq> 0 \<and> sz' \<le> MAX_BYTES then insert (p, sz') live else live)"
    obtain p0 st0 where r: "allocate (as_thread tc t st) sz env = Inr (p0, st0)"
      "invariant st0 (if p0 \<noteq> 0 then insert (p0, sz') (live \<union> frozen S t)
                      else live \<union> frozen S t)"
      "\<forall>z. p0 \<noteq> 0 \<longrightarrow> (p0, z) \<notin> live \<union> frozen S t"
      "\<forall>x z. (x, z) \<in> live \<union> frozen S t \<longrightarrow> mem st0 x = mem (as_thread tc t st) x"
      using allocate_inv [OF old [of t] os allocated.hyps(4) True] by blast
    have e: "p0 = p" "st0 = st'"
      using r(1) allocated.hyps(3) by simp_all
    have "(if p \<noteq> 0 then insert (p, sz') (live \<union> frozen S t) else live \<union> frozen S t) =
          live' \<union> frozen S t"
      using True by (simp add: live'_def)
    then obtain T' C' G' where new: "inv_with T' C' G' st' (live' \<union> frozen S t)"
      using r(2) unfolding e invariant_def by auto
    have frame: "mem st' x = mem st x" if "(x, z) \<in> frozen S t" for x z
      using r(4) that unfolding e by simp
    have lv: "(q, z) \<in> live \<or> (\<forall>z'. (q, z') \<notin> frozen S t)" if "(q, z) \<in> live'" for q z
      using that r(3) unfolding e live'_def by (auto split: if_splits)
    have "inv_with ((S(t := T')) u) C' G' (as_thread (tc(t := cache_of st')) u st')
           (live' \<union> frozen (S(t := T')) u)" for u
      using old new frame lv by (rule lift_step)
    then have "invariant_all st' (tc(t := cache_of st')) live'"
      by (rule invariant_allI [where S = "S(t := T')"])
    then show ?thesis
      unfolding live'_def .
  next
    case False
    then have "MAX_BYTES < sz'"
      by simp
    then have "allocate (as_thread tc t st) sz env =
                 Inr (malloc env (unat sz'), as_thread tc t st)"
      unfolding allocate_def allocated.hyps(4) [symmetric] Let_def by simp
    then have st': "st' = as_thread tc t st"
      using allocated.hyps(3) by simp
    have "as_thread (tc(t := cache_of st')) u st' = as_thread tc u st" for u
      by (simp add: st' as_thread_def cache_of_def)
    then have "inv_with (S u) C G (as_thread (tc(t := cache_of st')) u st')
                 (live \<union> frozen S u)" for u
      using old [of u] by simp
    then have "invariant_all st' (tc(t := cache_of st')) live"
      by (rule invariant_allI [where S = S])
    moreover have "(if p \<noteq> 0 \<and> sz' \<le> MAX_BYTES then insert (p, sz') live else live) = live"
      using False by simp
    ultimately show ?thesis
      by (simp only:)
  qed
next
  case (deallocated st tc live p sz' sz t st')
  obtain S C G where old: "\<And>v. inv_with (S v) C G (as_thread tc v st) (live \<union> frozen S v)"
    using deallocated.IH unfolding invariant_all_def by blast
  have nf: "(p, z) \<notin> frozen S t" for z
    using old deallocated.hyps(2) by (rule held_not_frozen)
  have l: "(p, sz') \<in> live \<union> frozen S t"
    using deallocated.hyps(2) by simp
  obtain st0 where r: "deallocate (as_thread tc t st) p sz = Inr st0"
    "invariant st0 (live \<union> frozen S t - {(p, sz')})"
    "\<forall>x z. (x, z) \<in> live \<union> frozen S t - {(p, sz')} \<longrightarrow> mem st0 x = mem (as_thread tc t st) x"
    using inv_dealloc [OF old [of t] l deallocated.hyps(3)] by blast
  have e: "st0 = st'"
    using r(1) deallocated.hyps(4) by simp
  have "live \<union> frozen S t - {(p, sz')} = (live - {(p, sz')}) \<union> frozen S t"
    using nf by auto
  then obtain T' C' G' where new: "inv_with T' C' G' st' ((live - {(p, sz')}) \<union> frozen S t)"
    using r(2) unfolding e invariant_def by auto
  have frame: "mem st' x = mem st x" if "(x, z) \<in> frozen S t" for x z
  proof -
    have "(x, z) \<noteq> (p, sz')"
      using that nf by blast
    then have "(x, z) \<in> live \<union> frozen S t - {(p, sz')}"
      using that by blast
    then have "mem st' x = mem (as_thread tc t st) x"
      using r(3) unfolding e by blast
    then show ?thesis
      by simp
  qed
  have lv: "(q, z) \<in> live \<or> (\<forall>z'. (q, z') \<notin> frozen S t)" if "(q, z) \<in> live - {(p, sz')}" for q z
    using that by blast
  have "inv_with ((S(t := T')) u) C' G' (as_thread (tc(t := cache_of st')) u st')
           ((live - {(p, sz')}) \<union> frozen (S(t := T')) u)" for u
    using old new frame lv by (rule lift_step)
  then show ?case
    by (rule invariant_allI [where S = "S(t := T')"])
next
  case (released st tc live sz t p st')
  obtain S C G where old: "\<And>v. inv_with (S v) C G (as_thread tc v st) (live \<union> frozen S v)"
    using released.IH unfolding invariant_all_def by blast
  have "deallocate (as_thread tc t st) p sz = Inr (as_thread tc t st)"
    using released.hyps(2) by (simp add: deallocate_def)
  then have st': "st' = as_thread tc t st"
    using released.hyps(3) by simp
  have "as_thread (tc(t := cache_of st')) u st' = as_thread tc u st" for u
    by (simp add: st' as_thread_def cache_of_def)
  then have "inv_with (S u) C G (as_thread (tc(t := cache_of st')) u st')
               (live \<union> frozen S u)" for u
    using old [of u] by simp
  then show ?case
    by (rule invariant_allI [where S = S])
next
  case (written st tc live a v)
  obtain S C G where old: "\<And>u. inv_with (S u) C G (as_thread tc u st) (live \<union> frozen S u)"
    using written.IH unfolding invariant_all_def by blast
  have "inv_with (S u) C G (as_thread tc u (st\<lparr>mem := (mem st)(a := v)\<rparr>))
          (live \<union> frozen S u)" for u
  proof -
    have w: "(\<exists>p sz. (p, sz) \<in> live \<union> frozen S u \<and> p \<le> a \<and> a < p + unat sz) \<or>
             \<not> mapped (as_thread tc u st) a"
      using written.hyps(2) mapped_cong [of "as_thread tc u st" st] by auto
    have eq: "as_thread tc u (st\<lparr>mem := (mem st)(a := v)\<rparr>) =
          (as_thread tc u st)\<lparr>mem := (mem (as_thread tc u st))(a := v)\<rparr>"
      by (simp add: as_thread_def)
    show ?thesis
      unfolding eq using old [of u] w by (rule inv_written)
  qed
  then show ?case
    by (rule invariant_allI [where S = S])
qed

text \<open>
  Claim C2. In every state that a run of several threads reaches from the initial state
  (\<open>reachable\<close>: any thread calls \<^verbatim>\<open>allocate\<close> and \<^verbatim>\<open>deallocate\<close> with its own thread cache
  over the shared central cache, page cache and heap; a block is given back only while
  it is held, with the size that was asked for; clients write only to held blocks or
  outside the spans), with an operating system whose \<^verbatim>\<open>mmap\<close> returns page-aligned memory
  that overlaps no span, \<^verbatim>\<open>allocate(s)\<close> by any thread \<open>t\<close> for \<open>1 \<le> s \<le> MAX_BYTES\<close> returns,
  and the address returned is a multiple of 8: its low three bits are zero. The address
  may be null (the operating system refused), popped from the list of the thread, taken
  from the central list or carved from a new span.
\<close>

theorem C2_allocate_aligned:
  assumes "reachable st tc live" and "good_os st env" and "1 \<le> s" and "s \<le> MAX_BYTES"
  shows "\<exists>p st'. allocate (as_thread tc t st) s env = Inr (p, st') \<and>
           8 dvd p \<and> take_bit 3 p = 0"
proof -
  obtain S C G where inv: "inv_with (S t) C G (as_thread tc t st) (live \<union> frozen S t)"
    using reachable_invariant [OF assms(1)] unfolding invariant_all_def by blast
  have os: "good_os (as_thread tc t st) env"
    using assms(2) by simp
  have s0: "s \<noteq> 0"
    using assms(3) by auto
  then have "s = (if s = 0 then ALIGNMENT else s)"
    by simp
  from allocate_inv [OF inv os this assms(4)]
  obtain p st' where "allocate (as_thread tc t st) s env = Inr (p, st')" "8 dvd p"
    by blast
  moreover from this(2) have "take_bit 3 p = 0"
    by (simp add: take_bit_eq_mod)
  ultimately show ?thesis
    by blast
qed

theorem C2_allocate_aligned_witness:
  "reachable given_back given_back_caches {} \<and> good_os given_back no_memory \<and>
   (1::size_t) \<le> 16384 \<and> (16384::size_t) \<le> MAX_BYTES \<and>
   (\<exists>p st'. allocate (as_thread given_back_caches 1 given_back) 16384 no_memory = Inr (p, st') \<and>
      8 dvd p \<and> take_bit 3 p = 0) \<and>
   fst (projr (allocate (as_thread given_back_caches 1 given_back) 16384 no_memory)) = 65536"
proof -
  let ?tc0 = "\<lambda>t::nat. (\<lambda>i::nat. 0::nat, \<lambda>i::nat. 0::size_t)"
  let ?st0 = "init_allocator (\<lambda>a. 0)"
  have g1: "good_os ?st0 (os_at 65536)"
    by (simp add: good_os_def os_at_def mapped_def init_allocator_def init_pageCache_def)
  have a1: "allocate (as_thread ?tc0 0 ?st0) 16384 (os_at 65536) = Inr (65536, first_alloc)"
    by (simp add: first_alloc_def as_thread_def
        allocate_def fetchFromCentralCache_def getBatchNum_def baseNum_def
        fetchRange_def fetchFromPageCache_def allocateSpan_def systemAlloc_def
        init_allocator_def init_pageCache_def os_at_def requestedPages_def totalBlocks_def
        link_chain_def link_blocks.simps roundUp_def getIndex_def
        FREE_LIST_SIZE_def MAX_BYTES_def ALIGNMENT_def MAX_BATCH_SIZE_def SPAN_PAGES_def
        PAGE_SIZE_def Let_def)
  have r1: "reachable first_alloc first_caches {(65536, 16384)}"
    using reachable.allocated [OF reachable.start g1 a1 refl]
    by (simp add: MAX_BYTES_def first_caches_def)
  have d1: "deallocate (as_thread first_caches 1 first_alloc) 65536 16384 = Inr given_back"
    by (simp add: given_back_def first_caches_def first_alloc_def as_thread_def cache_of_def
        deallocate_def shouldReturnToCentralCache_def
        roundUp_def getIndex_def FREE_LIST_SIZE_def MAX_BYTES_def ALIGNMENT_def Let_def)
  have r2: "reachable given_back given_back_caches {}"
    using reachable.deallocated [OF r1 _ _ d1] by (simp add: given_back_caches_def)
  have g2: "good_os given_back no_memory"
    by (simp add: good_os_def no_memory_def)
  have b: "(1::size_t) \<le> 16384" "(16384::size_t) \<le> MAX_BYTES"
    by (simp_all add: MAX_BYTES_def)
  have again:
    "fst (projr (allocate (as_thread given_back_caches 1 given_back) 16384 no_memory)) = 65536"
    by (simp add: given_back_caches_def given_back_def first_caches_def first_alloc_def
        as_thread_def cache_of_def deallocate_def shouldReturnToCentralCache_def allocate_def
        roundUp_def getIndex_def FREE_LIST_SIZE_def MAX_BYTES_def ALIGNMENT_def Let_def)
  show ?thesis
    using C2_allocate_aligned [OF r2 g2 b] r2 g2 b again by blast
qed

end
